theory Spec2Isabelle
  imports Main "HOL-Library.Word"
begin

section \<open>Log levels and the level gate (Logger.h)\<close>

text \<open>
  \<^verbatim>\<open>enum class LogLevel { DEFAULT = 0, FATAL = 1, ERR = 2, WARN = 3, INFO = 4,
  DEBUG = 5, TRACE = 6 }\<close>. The comparisons of the source cast a level to \<^verbatim>\<open>int\<close>;
  \<open>level_int\<close> is that cast.
\<close>

datatype LogLevel = DEFAULT | FATAL | ERR | WARN | INFO | DEBUG | TRACE

fun level_int :: "LogLevel \<Rightarrow> int" where
  "level_int DEFAULT = 0"
| "level_int FATAL = 1"
| "level_int ERR = 2"
| "level_int WARN = 3"
| "level_int INFO = 4"
| "level_int DEBUG = 5"
| "level_int TRACE = 6"

text \<open>\<^verbatim>\<open>class LogTopic\<close>: the fields \<^verbatim>\<open>_id\<close>, \<^verbatim>\<open>_name\<close>, \<^verbatim>\<open>_level\<close>.\<close>

record LogTopic =
  topic_id :: nat
  topic_name :: string
  topic_level :: LogLevel

text \<open>
  \<^verbatim>\<open>Logger::isEnabled(LogLevel level)\<close>; the first argument is the value read from the
  static atomic \<^verbatim>\<open>Logger::_level\<close>.
\<close>

definition isEnabled :: "LogLevel \<Rightarrow> LogLevel \<Rightarrow> bool" where
  "isEnabled global_level level \<longleftrightarrow> level_int level \<le> level_int global_level"

text \<open>\<^verbatim>\<open>Logger::isEnabled(LogLevel level, LogTopic const& topic)\<close>.\<close>

definition isEnabled_topic :: "LogLevel \<Rightarrow> LogLevel \<Rightarrow> LogTopic \<Rightarrow> bool" where
  "isEnabled_topic global_level level topic \<longleftrightarrow>
     level_int level \<le>
       level_int (if topic_level topic = DEFAULT then global_level else topic_level topic)"

section \<open>Severities, appenders and the dispatch loop (logging.cpp)\<close>

text \<open>
  Modelled from the spec: the enum \<^verbatim>\<open>TRI_log_level_e\<close> of Basics/logging.h, which is not
  among the sources. The spec gives FATAL = 1 up to TRACE = 6 (the values of
  \<^verbatim>\<open>LogLevel\<close> above). The code casts a level to \<^verbatim>\<open>size_t\<close> to index arrays, so a
  level is kept as its number.
\<close>

type_synonym TRI_log_level_e = nat

definition TRI_LOG_LEVEL_FATAL :: TRI_log_level_e where "TRI_LOG_LEVEL_FATAL = 1"
definition TRI_LOG_LEVEL_ERROR :: TRI_log_level_e where "TRI_LOG_LEVEL_ERROR = 2"
definition TRI_LOG_LEVEL_WARNING :: TRI_log_level_e where "TRI_LOG_LEVEL_WARNING = 3"
definition TRI_LOG_LEVEL_INFO :: TRI_log_level_e where "TRI_LOG_LEVEL_INFO = 4"
definition TRI_LOG_LEVEL_DEBUG :: TRI_log_level_e where "TRI_LOG_LEVEL_DEBUG = 5"
definition TRI_LOG_LEVEL_TRACE :: TRI_log_level_e where "TRI_LOG_LEVEL_TRACE = 6"

text \<open>
  Modelled from the spec: the enum \<^verbatim>\<open>TRI_log_severity_e\<close> of Basics/logging.h; the
  enumerators are the ones logging.cpp names.
\<close>

datatype TRI_log_severity_e =
    TRI_LOG_SEVERITY_EXCEPTION
  | TRI_LOG_SEVERITY_FUNCTIONAL
  | TRI_LOG_SEVERITY_USAGE
  | TRI_LOG_SEVERITY_TECHNICAL
  | TRI_LOG_SEVERITY_DEVELOPMENT
  | TRI_LOG_SEVERITY_HUMAN
  | TRI_LOG_SEVERITY_UNKNOWN

text \<open>
  \<^verbatim>\<open>struct TRI_log_appender_t\<close>: \<^verbatim>\<open>_contentFilter\<close> (\<open>None\<close> is the null pointer),
  \<^verbatim>\<open>_severityFilter\<close> and \<^verbatim>\<open>_consume\<close>.
\<close>

record TRI_log_appender_t =
  contentFilter :: "string option"
  severityFilter :: TRI_log_severity_e
  consume :: bool

text \<open>\<^verbatim>\<open>struct log_message_t\<close>, the element of the message queue.\<close>

record log_message_t =
  msg_level :: TRI_log_level_e
  msg_severity :: TRI_log_severity_e
  msg_message :: string
  msg_length :: nat

text \<open>
  Modelled from the spec: \<^verbatim>\<open>TRI_IsContainedString(full, part)\<close> of Basics/tri-strings,
  not among the sources; the spec calls the content filter a substring filter.
\<close>

fun starts_with :: "string \<Rightarrow> string \<Rightarrow> bool" where
  "starts_with full [] = True"
| "starts_with [] (p # ps) = False"
| "starts_with (c # cs) (p # ps) = (c = p \<and> starts_with cs ps)"

fun TRI_IsContainedString :: "string \<Rightarrow> string \<Rightarrow> bool" where
  "TRI_IsContainedString [] part = (part = [])"
| "TRI_IsContainedString (c # cs) part =
     (starts_with (c # cs) part \<or> TRI_IsContainedString cs part)"

text \<open>
  The loop \<^verbatim>\<open>for (auto& it : Appenders)\<close>, which \<^verbatim>\<open>OutputMessage\<close> and
  \<^verbatim>\<open>MessageQueueWorker\<close> both contain with the same body. The result lists, in call
  order, the positions in \<^verbatim>\<open>Appenders\<close> of the appenders whose \<^verbatim>\<open>logMessage\<close> is
  called; \<open>i\<close> is the position of the head of the remaining list.
\<close>

fun dispatch_from :: "nat \<Rightarrow> ('a TRI_log_appender_t_scheme) list \<Rightarrow> TRI_log_severity_e \<Rightarrow>
    string \<Rightarrow> nat list" where
  "dispatch_from i [] severity message = []"
| "dispatch_from i (it # rest) severity message =
     (if severityFilter it \<noteq> TRI_LOG_SEVERITY_UNKNOWN \<and> severityFilter it \<noteq> severity
      then dispatch_from (Suc i) rest severity message
      else if (case contentFilter it of
                 None \<Rightarrow> False
               | Some f \<Rightarrow> \<not> TRI_IsContainedString message f)
      then dispatch_from (Suc i) rest severity message
      else i # (if consume it then [] else dispatch_from (Suc i) rest severity message))"

definition dispatch :: "('a TRI_log_appender_t_scheme) list \<Rightarrow> TRI_log_severity_e \<Rightarrow>
    string \<Rightarrow> nat list" where
  "dispatch appenders severity message = dispatch_from 0 appenders severity message"

text \<open>
  The spec's words for one sink: its severity filter is unset (UNKNOWN) or equals the
  record's severity, and its content filter is unset or contained in the message.
\<close>

definition sink_matches :: "TRI_log_severity_e \<Rightarrow> string \<Rightarrow> 'a TRI_log_appender_t_scheme \<Rightarrow> bool" where
  "sink_matches severity message it \<longleftrightarrow>
     (severityFilter it = TRI_LOG_SEVERITY_UNKNOWN \<or> severityFilter it = severity) \<and>
     (case contentFilter it of None \<Rightarrow> True | Some f \<Rightarrow> TRI_IsContainedString message f)"

text \<open>
  One pass of the \<^verbatim>\<open>while (true)\<close> loop of \<^verbatim>\<open>MessageQueueWorker\<close>, up to the wait:
  \<open>buffer\<close> is what the swap with \<^verbatim>\<open>LogMessageQueue\<close> found, \<open>sl\<close> the interval
  (a C \<^verbatim>\<open>int\<close>, in microseconds; it stays below 1001000). The result is the new interval
  and the \<^verbatim>\<open>logMessage\<close> calls made, each as the appender's position and the message.
\<close>

definition worker_iteration :: "('a TRI_log_appender_t_scheme) list \<Rightarrow> int \<Rightarrow> log_message_t list \<Rightarrow>
    int \<times> (nat \<times> log_message_t) list" where
  "worker_iteration appenders sl buffer =
     (if buffer = [] then
        (let sl1 = sl + 1000 in (if 1000000 < sl1 then 1000000 else sl1), [])
      else
        (100, concat (map (\<lambda>msg. map (\<lambda>i. (i, msg))
                             (dispatch appenders (msg_severity msg) (msg_message msg))) buffer)))"

text \<open>
  What one pass of the worker sees of the other threads: the batch swapped out of the
  queue, the value of \<^verbatim>\<open>LoggingActive\<close> it reads, and, when that is false, whether it
  finds the queue empty.
\<close>

record worker_input =
  swapped :: "log_message_t list"
  active_read :: bool
  queue_empty_read :: bool

text \<open>
  The worker's loop over the passes it makes; it starts with \<^verbatim>\<open>int sl = 100\<close>. The
  result gives, for every pass, the interval after it and the calls it made. The loop
  leaves when logging is inactive and the queue is empty; the list of inputs is as long
  as the observed run.
\<close>

fun worker_loop :: "('a TRI_log_appender_t_scheme) list \<Rightarrow> int \<Rightarrow> worker_input list \<Rightarrow>
    (int \<times> (nat \<times> log_message_t) list) list" where
  "worker_loop appenders sl [] = []"
| "worker_loop appenders sl (inp # rest) =
     (let r = worker_iteration appenders sl (swapped inp) in
      r # (if active_read inp then worker_loop appenders (fst r) rest
           else if queue_empty_read inp then []
           else worker_loop appenders (fst r) rest))"

definition MessageQueueWorker :: "('a TRI_log_appender_t_scheme) list \<Rightarrow> worker_input list \<Rightarrow>
    (int \<times> (nat \<times> log_message_t) list) list" where
  "MessageQueueWorker appenders inputs = worker_loop appenders 100 inputs"

section \<open>The file appender (logging.cpp)\<close>

text \<open>
  \<^verbatim>\<open>struct log_appender_file_t : TRI_log_appender_t\<close> with \<^verbatim>\<open>_filename\<close> (empty for
  the aliases \<^verbatim>\<open>+\<close> and \<^verbatim>\<open>-\<close> of the standard streams), \<^verbatim>\<open>_fd\<close> and
  \<^verbatim>\<open>_fatal2stderr\<close>.
\<close>

record log_appender_file_t = TRI_log_appender_t +
  filename :: string
  fd :: int
  fatal2stderr :: bool

definition STDOUT_FILENO :: int where "STDOUT_FILENO = 1"
definition STDERR_FILENO :: int where "STDERR_FILENO = 2"

text \<open>
  What \<^verbatim>\<open>writeLogFile\<close> leaves behind: the bytes the descriptor accepted, and whether
  the function returned through the branch that prints \<^verbatim>\<open>cannot log data\<close> to stderr.
\<close>

datatype write_outcome = Written string | WriteFailed string

text \<open>
  The loop \<^verbatim>\<open>while (len > 0)\<close> of \<^verbatim>\<open>log_appender_file_t::writeLogFile\<close>. The results of
  \<^verbatim>\<open>TRI_WRITE\<close> come from the descriptor: \<open>wr k\<close> is what the \<open>k\<close>-th call returns.
  \<open>buffer\<close> is the part not yet written, \<open>len\<close> the \<^verbatim>\<open>ssize_t\<close> counter, \<open>out\<close> the
  bytes accepted so far. The loop may run forever, so the function is partial:
  \<open>None\<close> is a run that never returns.
\<close>

partial_function (option) writeLogFile_loop ::
    "(nat \<Rightarrow> int) \<Rightarrow> nat \<Rightarrow> string \<Rightarrow> int \<Rightarrow> bool \<Rightarrow> string \<Rightarrow> write_outcome option" where
  "writeLogFile_loop wr k buffer len giveUp out =
     (if len > 0 then
        (let n = wr k in
         if n < 0 then Some (WriteFailed out)
         else if n = 0 \<and> \<not> giveUp then writeLogFile_loop wr (Suc k) buffer len True out
         else writeLogFile_loop wr (Suc k) (drop (nat n) buffer) (len - n) giveUp
                (out @ take (nat n) buffer))
      else Some (Written out))"

definition writeLogFile :: "(nat \<Rightarrow> int) \<Rightarrow> string \<Rightarrow> int \<Rightarrow> write_outcome option" where
  "writeLogFile wr buffer len = writeLogFile_loop wr 0 buffer len False []"

text \<open>
  Modelled from the spec: \<^verbatim>\<open>TRI_UnlinkFile\<close> and \<^verbatim>\<open>TRI_RenameFile\<close> of Basics/files and
  the macros \<^verbatim>\<open>TRI_CREATE\<close> and \<^verbatim>\<open>TRI_CLOSE\<close>, none of them among the sources, as the
  spec's rotation uses them (remove a prior backup, rename the file to the backup, open a
  new file at the original path, close the old descriptor). A file system is a flat name
  space from paths to files (numbered), a table of open descriptors and the number of
  the next file created. Removing a missing path and renaming a missing path change
  nothing (\<^verbatim>\<open>reopenLog\<close> ignores both return codes). Whether an open succeeds is the
  environment's choice: \<open>r\<close> is the value \<^verbatim>\<open>TRI_CREATE\<close> returns, negative for a
  failure, otherwise the new descriptor.
\<close>

record file_system =
  files :: "string \<rightharpoonup> nat"
  descriptors :: "int \<rightharpoonup> nat"
  next_file :: nat

definition TRI_UnlinkFile :: "file_system \<Rightarrow> string \<Rightarrow> file_system" where
  "TRI_UnlinkFile fs path = fs\<lparr>files := (files fs)(path := None)\<rparr>"

definition TRI_RenameFile :: "file_system \<Rightarrow> string \<Rightarrow> string \<Rightarrow> file_system" where
  "TRI_RenameFile fs old new =
     (case files fs old of
        None \<Rightarrow> fs
      | Some f \<Rightarrow> fs\<lparr>files := (files fs)(old := None, new \<mapsto> f)\<rparr>)"

definition TRI_CREATE :: "file_system \<Rightarrow> string \<Rightarrow> int \<Rightarrow> file_system" where
  "TRI_CREATE fs path r =
     (if r < 0 then fs
      else (case files fs path of
              None \<Rightarrow> fs\<lparr>files := (files fs)(path \<mapsto> next_file fs),
                         descriptors := (descriptors fs)(r \<mapsto> next_file fs),
                         next_file := Suc (next_file fs)\<rparr>
            | Some f \<Rightarrow> fs\<lparr>descriptors := (descriptors fs)(r \<mapsto> f)\<rparr>))"

definition TRI_CLOSE :: "file_system \<Rightarrow> int \<Rightarrow> file_system" where
  "TRI_CLOSE fs d = fs\<lparr>descriptors := (descriptors fs)(d := None)\<rparr>"

text \<open>
  \<^verbatim>\<open>log_appender_file_t::reopenLog\<close>; \<open>r\<close> is the result of the one \<^verbatim>\<open>TRI_CREATE\<close> it
  may call. The appender and the file system are returned as the call leaves them.
\<close>

definition reopenLog :: "int \<Rightarrow> log_appender_file_t \<Rightarrow> file_system \<Rightarrow>
    log_appender_file_t \<times> file_system" where
  "reopenLog r a fs =
     (if filename a = [] then (a, fs)
      else if fd a \<le> STDERR_FILENO then (a, fs)
      else
        (let backup = filename a @ ''.old'';
             fs1 = TRI_UnlinkFile fs backup;
             fs2 = TRI_RenameFile fs1 (filename a) backup;
             fs3 = TRI_CREATE fs2 (filename a) r
         in if r < 0 then (a, TRI_RenameFile fs3 backup (filename a))
            else (a\<lparr>fd := r\<rparr>, TRI_CLOSE fs3 (fd a))))"

section \<open>The ring buffers of recent messages (logging.cpp)\<close>

definition OUTPUT_MAX_LENGTH :: nat where "OUTPUT_MAX_LENGTH = 256"
definition OUTPUT_BUFFER_SIZE :: nat where "OUTPUT_BUFFER_SIZE = 1024"
definition OUTPUT_LOG_LEVELS :: nat where "OUTPUT_LOG_LEVELS = 6"

text \<open>
  Modelled from the spec: \<^verbatim>\<open>struct TRI_log_buffer_t\<close> of Basics/logging.h, not among the
  sources, with the fields logging.cpp uses: \<^verbatim>\<open>_lid\<close> (a \<^verbatim>\<open>uint64_t\<close>), \<^verbatim>\<open>_level\<close>,
  \<^verbatim>\<open>_timestamp\<close> and \<^verbatim>\<open>_text\<close> (\<open>None\<close> is the null pointer).
\<close>

record TRI_log_buffer_t =
  buf_lid :: "64 word"
  buf_level :: TRI_log_level_e
  buf_timestamp :: int
  buf_text :: "string option"

text \<open>
  The statics \<^verbatim>\<open>BufferLID\<close>, \<^verbatim>\<open>BufferCurrent[OUTPUT_LOG_LEVELS]\<close> and
  \<^verbatim>\<open>BufferOutput[OUTPUT_LOG_LEVELS][OUTPUT_BUFFER_SIZE]\<close>. An array is a function of its
  index; the code below reads and writes it only through indices it has checked or
  reduced, and the reads of the query are checked again by \<open>read_slot\<close>.
\<close>

record ring_state =
  BufferLID :: "64 word"
  BufferCurrent :: "nat \<Rightarrow> nat"
  BufferOutput :: "nat \<Rightarrow> nat \<Rightarrow> TRI_log_buffer_t"

definition empty_slot :: TRI_log_buffer_t where
  "empty_slot = \<lparr>buf_lid = 0, buf_level = 0, buf_timestamp = 0, buf_text = None\<rparr>"

text \<open>The state at program start: \<^verbatim>\<open>BufferLID = 1\<close>, everything else zero.\<close>

definition initial_rings :: ring_state where
  "initial_rings = \<lparr>BufferLID = 1, BufferCurrent = (\<lambda>_. 0), BufferOutput = (\<lambda>_ _. empty_slot)\<rparr>"

text \<open>
  The copy \<^verbatim>\<open>StoreOutput\<close> makes of the text: at most \<^verbatim>\<open>OUTPUT_MAX_LENGTH\<close> bytes, a
  longer text cut to 252 bytes followed by \<^verbatim>\<open>" ..."\<close>. \<open>alloc_ok\<close> tells whether the
  allocation succeeds; \<open>None\<close> is the null pointer.
\<close>

definition stored_text :: "bool \<Rightarrow> string \<Rightarrow> string option" where
  "stored_text alloc_ok text =
     (if length text > OUTPUT_MAX_LENGTH then
        (if alloc_ok then Some (take (OUTPUT_MAX_LENGTH - 4) text @ '' ...'') else None)
      else (if alloc_ok then Some text else None))"

text \<open>\<^verbatim>\<open>StoreOutput(level, timestamp, text, length)\<close>, with \<open>length = length text\<close>.\<close>

definition StoreOutput :: "bool \<Rightarrow> TRI_log_level_e \<Rightarrow> int \<Rightarrow> string \<Rightarrow> ring_state \<Rightarrow> ring_state" where
  "StoreOutput alloc_ok level timestamp text st =
     (let pos = level in
      if pos \<ge> OUTPUT_LOG_LEVELS then st
      else
        (case stored_text alloc_ok text of
           None \<Rightarrow> st
         | Some msg \<Rightarrow>
             (let oldPos = BufferCurrent st pos;
                  cur = (oldPos + 1) mod OUTPUT_BUFFER_SIZE
              in st\<lparr>BufferCurrent := (BufferCurrent st)(pos := cur),
                    BufferOutput := (BufferOutput st)
                      (pos := (BufferOutput st pos)
                         (cur := \<lparr>buf_lid = BufferLID st, buf_level = level,
                                  buf_timestamp = timestamp, buf_text = Some msg\<rparr>)),
                    BufferLID := BufferLID st + 1\<rparr>)))"

text \<open>
  A run of calls of \<^verbatim>\<open>StoreOutput\<close>, each given as (allocation succeeds, level,
  timestamp, text).
\<close>

type_synonym store_call = "bool \<times> TRI_log_level_e \<times> int \<times> string"

definition store_all :: "store_call list \<Rightarrow> ring_state \<Rightarrow> ring_state" where
  "store_all calls st = fold (\<lambda>(ok, level, timestamp, text). StoreOutput ok level timestamp text) calls st"

text \<open>
  The slots of one ring from the oldest to the newest: the slot after
  \<^verbatim>\<open>BufferCurrent[pos]\<close> is the next to be overwritten, \<^verbatim>\<open>BufferCurrent[pos]\<close> itself the
  last one written.
\<close>

definition ring_oldest_first :: "ring_state \<Rightarrow> nat \<Rightarrow> TRI_log_buffer_t list" where
  "ring_oldest_first st pos =
     map (\<lambda>j. BufferOutput st pos ((BufferCurrent st pos + 1 + j) mod OUTPUT_BUFFER_SIZE))
       [0..<OUTPUT_BUFFER_SIZE]"

text \<open>
  The entries a run of \<^verbatim>\<open>StoreOutput\<close> calls writes, in the order they are written, when
  \<^verbatim>\<open>BufferLID\<close> is \<open>l\<close> before the run. It follows the two early returns of
  \<^verbatim>\<open>StoreOutput\<close>: a call whose level is not a position of the arrays (6, TRACE, and
  above) or whose allocation fails writes nothing and takes no lid; every other call
  takes the next lid.
\<close>

fun insert_log :: "store_call list \<Rightarrow> 64 word \<Rightarrow> TRI_log_buffer_t list" where
  "insert_log [] l = []"
| "insert_log ((ok, level, timestamp, text) # calls) l =
     (if level < OUTPUT_LOG_LEVELS \<and> stored_text ok text \<noteq> None
      then \<lparr>buf_lid = l, buf_level = level, buf_timestamp = timestamp,
            buf_text = stored_text ok text\<rparr> # insert_log calls (l + 1)
      else insert_log calls l)"

text \<open>
  \<^verbatim>\<open>LidCompare\<close>: the difference of the two lids as \<^verbatim>\<open>int64_t\<close>, cast to \<^verbatim>\<open>int\<close>,
  which keeps the low 32 bits.
\<close>

definition LidCompare :: "TRI_log_buffer_t \<Rightarrow> TRI_log_buffer_t \<Rightarrow> int" where
  "LidCompare left right = sint (ucast (buf_lid left - buf_lid right) :: 32 word)"

text \<open>
  Modelled from the spec: \<^verbatim>\<open>qsort\<close> of the C library, which the query calls with
  \<^verbatim>\<open>LidCompare\<close>. It is a sort that decides the order of two elements by the sign of the
  comparator only; it is taken as an insertion sort.
\<close>

fun qsort_insert :: "('a \<Rightarrow> 'a \<Rightarrow> int) \<Rightarrow> 'a \<Rightarrow> 'a list \<Rightarrow> 'a list" where
  "qsort_insert cmp x [] = [x]"
| "qsort_insert cmp x (y # ys) =
     (if cmp x y \<le> 0 then x # y # ys else y # qsort_insert cmp x ys)"

definition qsort :: "('a \<Rightarrow> 'a \<Rightarrow> int) \<Rightarrow> 'a list \<Rightarrow> 'a list" where
  "qsort cmp xs = foldr (qsort_insert cmp) xs []"

datatype query_error = OutOfMemory | OutOfRange

text \<open>A read of \<^verbatim>\<open>BufferOutput[i][cur]\<close>; \<open>None\<close> is a read outside the array.\<close>

definition read_slot :: "ring_state \<Rightarrow> nat \<Rightarrow> nat \<Rightarrow> TRI_log_buffer_t option" where
  "read_slot st i cur =
     (if i < OUTPUT_LOG_LEVELS \<and> cur < OUTPUT_BUFFER_SIZE then Some (BufferOutput st i cur)
      else None)"

text \<open>
  The test \<^verbatim>\<open>TRI_BufferLogging\<close> makes on a slot it has read: the lid is at least
  \<open>start\<close>, the text is neither null nor empty, and the copy of the slot succeeds.
  \<open>copy_ok buf\<close> tells whether that copy (\<^verbatim>\<open>TRI_DuplicateString\<close>,
  \<^verbatim>\<open>TRI_PushBackVector\<close>) succeeds; a slot whose copy fails is left out.
\<close>

definition query_keeps :: "64 word \<Rightarrow> (TRI_log_buffer_t \<Rightarrow> bool) \<Rightarrow> TRI_log_buffer_t \<Rightarrow> bool" where
  "query_keeps start copy_ok buf \<longleftrightarrow>
     buf_lid buf \<ge> start \<and> buf_text buf \<noteq> None \<and> buf_text buf \<noteq> Some [] \<and> copy_ok buf"

text \<open>
  The inner loop \<^verbatim>\<open>for (j = 0; j < OUTPUT_BUFFER_SIZE; ++j)\<close> of \<^verbatim>\<open>TRI_BufferLogging\<close>
  over the remaining values of \<open>j\<close>.
\<close>

fun scan_ring :: "ring_state \<Rightarrow> 64 word \<Rightarrow> (TRI_log_buffer_t \<Rightarrow> bool) \<Rightarrow> nat \<Rightarrow> nat list \<Rightarrow>
    query_error + TRI_log_buffer_t list" where
  "scan_ring st start copy_ok i [] = Inr []"
| "scan_ring st start copy_ok i (j # js) =
     (if i \<ge> OUTPUT_LOG_LEVELS then Inl OutOfRange
      else
        (let cur = (BufferCurrent st i + j) mod OUTPUT_BUFFER_SIZE in
         case read_slot st i cur of
           None \<Rightarrow> Inl OutOfRange
         | Some buf \<Rightarrow>
             (case scan_ring st start copy_ok i js of
                Inl e \<Rightarrow> Inl e
              | Inr rest \<Rightarrow> Inr ((if query_keeps start copy_ok buf then [buf] else []) @ rest))))"

text \<open>The outer loop \<^verbatim>\<open>for (i = begin; i <= pos; ++i)\<close> over the remaining rings.\<close>

fun scan_rings :: "ring_state \<Rightarrow> 64 word \<Rightarrow> (TRI_log_buffer_t \<Rightarrow> bool) \<Rightarrow> nat list \<Rightarrow>
    query_error + TRI_log_buffer_t list" where
  "scan_rings st start copy_ok [] = Inr []"
| "scan_rings st start copy_ok (i # is) =
     (case scan_ring st start copy_ok i [0..<OUTPUT_BUFFER_SIZE] of
        Inl e \<Rightarrow> Inl e
      | Inr found \<Rightarrow>
          (case scan_rings st start copy_ok is of
             Inl e \<Rightarrow> Inl e
           | Inr rest \<Rightarrow> Inr (found @ rest)))"

text \<open>
  \<^verbatim>\<open>TRI_BufferLogging(level, start, useUpto)\<close>. \<open>vec_ok\<close> tells whether the result
  vector can be allocated (the code returns the null pointer otherwise).
\<close>

definition TRI_BufferLogging :: "bool \<Rightarrow> (TRI_log_buffer_t \<Rightarrow> bool) \<Rightarrow> TRI_log_level_e \<Rightarrow>
    64 word \<Rightarrow> bool \<Rightarrow> ring_state \<Rightarrow> query_error + TRI_log_buffer_t list" where
  "TRI_BufferLogging vec_ok copy_ok level start useUpto st =
     (if \<not> vec_ok then Inl OutOfMemory
      else
        (let pos = (if level \<ge> OUTPUT_LOG_LEVELS then OUTPUT_LOG_LEVELS - 1 else level);
             begin = (if \<not> useUpto then pos else 0)
         in case scan_rings st start copy_ok [begin..<Suc pos] of
              Inl e \<Rightarrow> Inl e
            | Inr result \<Rightarrow> Inr (qsort LidCompare result)))"

text \<open>
  The slots of one ring in the order the query reads them: it starts at
  \<^verbatim>\<open>BufferCurrent[i]\<close>, the newest entry, and goes on with the oldest.
\<close>

definition ring_scan_order :: "ring_state \<Rightarrow> nat \<Rightarrow> TRI_log_buffer_t list" where
  "ring_scan_order st i =
     map (\<lambda>j. BufferOutput st i ((BufferCurrent st i + j) mod OUTPUT_BUFFER_SIZE))
       [0..<OUTPUT_BUFFER_SIZE]"

section \<open>Formatting and emitting a record (logging.cpp)\<close>

text \<open>
  Modelled from the spec: the macros \<^verbatim>\<open>TRI_SHELL_COLOR_RED\<close>, \<^verbatim>\<open>TRI_SHELL_COLOR_YELLOW\<close>
  and \<^verbatim>\<open>TRI_SHELL_COLOR_RESET\<close> of Basics/shell-colors.h, not among the sources: a
  line on stderr is kept as its colour and its text.
\<close>

datatype stderr_color = RED | YELLOW | PLAIN

text \<open>\<^verbatim>\<open>WriteStderr(level, msg)\<close>: the line it prints.\<close>

definition WriteStderr :: "TRI_log_level_e \<Rightarrow> string \<Rightarrow> stderr_color \<times> string" where
  "WriteStderr level msg =
     (if level = TRI_LOG_LEVEL_FATAL \<or> level = TRI_LOG_LEVEL_ERROR then (RED, msg)
      else if level = TRI_LOG_LEVEL_WARNING then (YELLOW, msg)
      else (PLAIN, msg))"

text \<open>
  The statics of logging.cpp that emitting a record reads or changes, and what leaves
  the process: the lines written to stderr and the \<^verbatim>\<open>logMessage\<close> calls made (each as
  the appender's position and the message passed).
\<close>

record logging_state =
  LoggingActive :: bool
  ThreadedLogging :: bool
  Appenders :: "TRI_log_appender_t list"
  LogMessageQueue :: "log_message_t list"
  OutputPrefix :: "string option"
  ShowThreadIdentifier :: bool
  ShowLineNumber :: bool
  Buffers :: ring_state
  stderr_written :: "(stderr_color \<times> string) list"
  logMessage_calls :: "(nat \<times> log_message_t) list"

text \<open>
  What one log call gets from its environment: the time prefix \<^verbatim>\<open>strftime\<close> would
  produce and the value of \<^verbatim>\<open>time(0)\<close>, the process and thread numbers, what the
  \<open>k\<close>-th call of \<^verbatim>\<open>vsnprintf\<close> on the caller's format and arguments renders
  (\<open>None\<close> when it returns a negative value), whether \<^verbatim>\<open>TRI_Allocate\<close> of a given
  size succeeds, the text \<^verbatim>\<open>TRI_GetBacktrace\<close> appends, and whether the allocations of
  \<^verbatim>\<open>StoreOutput\<close>, of the queue and of the copy in \<^verbatim>\<open>log_message_t\<close> succeed.
\<close>

record log_env =
  formatted_time :: string
  now :: int
  processId :: nat
  threadNumber :: nat
  render :: "nat \<Rightarrow> string option"
  alloc_ok :: "nat \<Rightarrow> bool"
  backtrace :: string
  store_alloc_ok :: bool
  queue_ok :: bool
  dup_ok :: bool

text \<open>The arguments of \<^verbatim>\<open>TRI_Log\<close> (the variadic ones are behind \<open>render\<close>).\<close>

record log_call =
  call_func :: string
  call_file :: string
  call_line :: int
  call_level :: TRI_log_level_e
  call_severity :: TRI_log_severity_e
  call_fmt :: string

text \<open>The decimal digits \<^verbatim>\<open>%llu\<close> and \<^verbatim>\<open>%d\<close> print.\<close>

fun decimal :: "nat \<Rightarrow> string" where
  "decimal n =
     (if n < 10 then [''0123456789'' ! n]
      else decimal (n div 10) @ [''0123456789'' ! (n mod 10)])"

declare decimal.simps [simp del]

definition decimal_int :: "int \<Rightarrow> string" where
  "decimal_int i = (if i < 0 then ''-'' @ decimal (nat (- i)) else decimal (nat i))"

text \<open>The \<^verbatim>\<open>switch (level)\<close> of \<^verbatim>\<open>GenerateMessage\<close>.\<close>

definition level_name :: "TRI_log_level_e \<Rightarrow> string" where
  "level_name level =
     (if level = TRI_LOG_LEVEL_FATAL then ''FATAL''
      else if level = TRI_LOG_LEVEL_ERROR then ''ERROR''
      else if level = TRI_LOG_LEVEL_WARNING then ''WARNING''
      else if level = TRI_LOG_LEVEL_INFO then ''INFO''
      else if level = TRI_LOG_LEVEL_DEBUG then ''DEBUG''
      else if level = TRI_LOG_LEVEL_TRACE then ''TRACE''
      else ''UNKNOWN'')"

text \<open>
  \<^verbatim>\<open>GenerateMessage(buffer, size, &offset, func, file, line, level, pid, thread, fmt, ap)\<close>.
  \<open>body\<close> is what \<^verbatim>\<open>vsnprintf\<close> renders from \<^verbatim>\<open>fmt\<close> and \<^verbatim>\<open>ap\<close> in this call.
  The result is the returned \<^verbatim>\<open>int\<close>, the value left in \<^verbatim>\<open>*offset\<close> and the bytes
  in the buffer (\<^verbatim>\<open>snprintf\<close> writes at most \<open>sz - 1\<close> of them, \<open>sz\<close> being the
  argument \<^verbatim>\<open>size\<close>). Every \<^verbatim>\<open>snprintf\<close>
  returns the length of what it was asked to print; those of the prefix print plain
  strings and numbers and do not fail, so only the last one can return \<open>-1\<close>.
\<close>

definition GenerateMessage :: "nat \<Rightarrow> logging_state \<Rightarrow> log_env \<Rightarrow> log_call \<Rightarrow> string option \<Rightarrow>
    int \<times> int \<times> string" where
  "GenerateMessage sz st env c body =
     (let p0 = (case OutputPrefix st of
                  None \<Rightarrow> []
                | Some outputPrefix \<Rightarrow> if outputPrefix \<noteq> [] then outputPrefix @ '' '' else [])
      in if int sz \<le> int (length p0) then (int (length p0), 0, take (sz - 1) p0)
      else
        (let p1 = p0 @ (if ShowThreadIdentifier st
                        then ''['' @ decimal (processId env) @ ''-'' @ decimal (threadNumber env) @ ''] ''
                        else ''['' @ decimal (processId env) @ ''] '')
         in if int sz \<le> int (length p1) then (int (length p1), 0, take (sz - 1) p1)
         else
           (let p2 = p1 @ level_name (call_level c) @ '' ''
            in if int sz \<le> int (length p2) then (int (length p2), 0, take (sz - 1) p2)
            else
              (let sln = (ShowLineNumber st \<or> call_level c = TRI_LOG_LEVEL_DEBUG
                            \<or> call_level c = TRI_LOG_LEVEL_TRACE);
                   p3 = (if sln
                         then p2 @ ''['' @ call_file c @ '':'' @ decimal_int (call_line c) @ ''] ''
                         else p2)
               in if sln \<and> int sz \<le> int (length p3)
                  then (int (length p3), 0, take (sz - 1) p3)
                  else
                    (case body of
                       None \<Rightarrow> (- 1, int (length p3), take (sz - 1) p3)
                     | Some b \<Rightarrow>
                         (int (length p3) + int (length b), int (length p3),
                          take (sz - 1) (p3 @ b)))))))"

text \<open>
  \<^verbatim>\<open>OutputMessage(level, severity, message, length, offset, claimOwnership)\<close>. The
  text handed to \<^verbatim>\<open>StoreOutput\<close> is \<^verbatim>\<open>message + offset\<close> with \<^verbatim>\<open>length - offset\<close>
  bytes (the code asserts \<^verbatim>\<open>length >= offset\<close>, and \<^verbatim>\<open>LogThread\<close> calls it so).
  Without ownership the queue entry holds a copy, and \<^verbatim>\<open>"out-of-memory"\<close> when the
  copy fails; \<open>queue_ok\<close> tells whether appending to the queue succeeds.
\<close>

definition OutputMessage :: "log_env \<Rightarrow> TRI_log_level_e \<Rightarrow> TRI_log_severity_e \<Rightarrow> string \<Rightarrow> nat \<Rightarrow>
    nat \<Rightarrow> bool \<Rightarrow> logging_state \<Rightarrow> logging_state" where
  "OutputMessage env level severity message len offset claimOwnership st =
     (if \<not> LoggingActive st
      then st\<lparr>stderr_written := stderr_written st @ [WriteStderr level message]\<rparr>
      else
        (let st1 = (if severity = TRI_LOG_SEVERITY_HUMAN
                    then st\<lparr>Buffers := StoreOutput (store_alloc_ok env) level (now env)
                                  (take (len - offset) (drop offset message)) (Buffers st)\<rparr>
                    else st)
         in if Appenders st1 = []
            then st1\<lparr>stderr_written := stderr_written st1 @ [WriteStderr level message]\<rparr>
            else if ThreadedLogging st1 then
              (if queue_ok env
               then st1\<lparr>LogMessageQueue := LogMessageQueue st1 @
                      [\<lparr>msg_level = level, msg_severity = severity,
                        msg_message = (if claimOwnership \<or> dup_ok env then message
                                       else ''out-of-memory''),
                        msg_length = len\<rparr>]\<rparr>
               else st1)
            else st1\<lparr>logMessage_calls := logMessage_calls st1 @
                   map (\<lambda>i. (i, \<lparr>msg_level = level, msg_severity = severity,
                                  msg_message = message, msg_length = len\<rparr>))
                     (dispatch (Appenders st1) severity message)\<rparr>))"

text \<open>
  What \<^verbatim>\<open>LogThread\<close> ends with: a call of \<^verbatim>\<open>OutputMessage\<close> (level, severity,
  message, length, offset, claimOwnership), a new call of \<^verbatim>\<open>TRI_Log\<close> with a
  diagnostic (level, severity, text), or a return without either.
\<close>

datatype log_action =
    Output TRI_log_level_e TRI_log_severity_e string nat nat bool
  | Relog TRI_log_level_e TRI_log_severity_e string
  | Nothing

definition maxSize :: int where "maxSize = 100 * 1024"

text \<open>\<^verbatim>\<open>DisarmFormatString\<close>: every \<^verbatim>\<open>%\<close> becomes \<^verbatim>\<open>^\<close>.\<close>

definition DisarmFormatString :: "string \<Rightarrow> string" where
  "DisarmFormatString dangerousString =
     map (\<lambda>ch. if ch = CHR ''%'' then CHR ''^'' else ch) dangerousString"

text \<open>
  \<^verbatim>\<open>strftime(buffer, 32, ...)\<close>: the number of bytes is returned when they fit with the
  terminator, 0 otherwise.
\<close>

definition time_prefix :: "log_env \<Rightarrow> string" where
  "time_prefix env = (if length (formatted_time env) < 32 then formatted_time env else [])"

text \<open>
  The loop \<^verbatim>\<open>while (n < maxSize)\<close> of \<^verbatim>\<open>LogThread\<close> (the branches for \<^verbatim>\<open>_WIN32\<close> are
  not compiled). \<open>k\<close> counts the calls of \<^verbatim>\<open>GenerateMessage\<close> made so far. The test
  \<^verbatim>\<open>m + len - 1 > 0\<close> is unsigned.
\<close>

function LogThread_loop :: "logging_state \<Rightarrow> log_env \<Rightarrow> log_call \<Rightarrow> nat \<Rightarrow> int \<Rightarrow> log_action" where
  "LogThread_loop st env c k n =
     (if n < maxSize then
        (let len = length (time_prefix env) in
         if \<not> alloc_ok env (nat (n + int len + 2))
         then Relog TRI_LOG_LEVEL_ERROR TRI_LOG_SEVERITY_HUMAN
                (''log message is too large ('' @ decimal_int (n + int len) @ '' bytes)'')
         else
           (case GenerateMessage (nat (n + 1)) st env c (render env k) of
              (m, offset, p) \<Rightarrow>
                if m = - 1
                then Relog TRI_LOG_LEVEL_WARNING TRI_LOG_SEVERITY_HUMAN
                       (DisarmFormatString
                          (''format string is corrupt: ['' @ call_fmt c @ ''] '' @ backtrace env))
                else if m > n then LogThread_loop st env c (Suc k) m
                else if (m + int len - 1) mod 2 ^ 64 > 0
                then Output (call_level c) (call_severity c) (time_prefix env @ p)
                       (nat (m + int len)) (nat (offset + int len)) True
                else Nothing))
      else Nothing)"
  by pat_completeness auto
termination
  by (relation "measure (\<lambda>(st, env, c, k, n). nat (maxSize - n))") auto

declare LogThread_loop.simps [simp del]

text \<open>
  \<^verbatim>\<open>LogThread\<close>: the attempt in the stack buffer of 2048 bytes, then the loop.
\<close>

definition LogThread :: "logging_state \<Rightarrow> log_env \<Rightarrow> log_call \<Rightarrow> log_action" where
  "LogThread st env c =
     (let len = length (time_prefix env) in
      case GenerateMessage (2048 - len) st env c (render env 0) of
        (n, offset, buffer) \<Rightarrow>
          if n = - 1
          then Relog TRI_LOG_LEVEL_WARNING TRI_LOG_SEVERITY_HUMAN
                 (DisarmFormatString
                    (''format string is corrupt: ['' @ call_fmt c @ ''] - GenerateMessage failed''
                       @ backtrace env))
          else if n < int (2048 - len)
          then Output (call_level c) (call_severity c) (time_prefix env @ buffer)
                 (nat (n + int len)) (nat (offset + int len)) False
          else LogThread_loop st env c 1 n)"

text \<open>
  \<^verbatim>\<open>TRI_Log\<close> (the block for \<^verbatim>\<open>_WIN32\<close> is not compiled). A diagnostic of
  \<^verbatim>\<open>LogThread\<close> is a nested call of \<^verbatim>\<open>TRI_Log\<close> whose format is the diagnostic's
  text, which renders as itself. The first argument bounds the depth of these nested
  calls; \<open>None\<close> is a nesting deeper than that.
\<close>

fun TRI_Log :: "nat \<Rightarrow> log_env \<Rightarrow> log_call \<Rightarrow> logging_state \<Rightarrow> logging_state option" where
  "TRI_Log 0 env c st = None"
| "TRI_Log (Suc depth) env c st =
     (if \<not> LoggingActive st then Some st
      else
        (case LogThread st env c of
           Output level severity message len offset claimOwnership \<Rightarrow>
             Some (OutputMessage env level severity message len offset claimOwnership st)
         | Relog level severity diagnostic \<Rightarrow>
             TRI_Log depth (env\<lparr>render := (\<lambda>_. Some diagnostic)\<rparr>)
               (c\<lparr>call_level := level, call_severity := severity, call_fmt := diagnostic\<rparr>) st
         | Nothing \<Rightarrow> Some st))"

text \<open>
  The spec's words for the prefix of a record: the optional output prefix, the process
  (and thread) identifier, the level name and, for DEBUG and TRACE or when line numbers
  are switched on, the file and line.
\<close>

definition message_prefix :: "logging_state \<Rightarrow> log_env \<Rightarrow> log_call \<Rightarrow> string" where
  "message_prefix st env c =
     (case OutputPrefix st of
        None \<Rightarrow> []
      | Some outputPrefix \<Rightarrow> if outputPrefix \<noteq> [] then outputPrefix @ '' '' else []) @
     (if ShowThreadIdentifier st
      then ''['' @ decimal (processId env) @ ''-'' @ decimal (threadNumber env) @ ''] ''
      else ''['' @ decimal (processId env) @ ''] '') @
     level_name (call_level c) @ '' '' @
     (if ShowLineNumber st \<or> call_level c = TRI_LOG_LEVEL_DEBUG \<or> call_level c = TRI_LOG_LEVEL_TRACE
      then ''['' @ call_file c @ '':'' @ decimal_int (call_line c) @ ''] ''
      else [])"

text \<open>
  The statics as the program starts: logging is not active, there is no appender, no
  prefix, and the rings are empty.
\<close>

definition startup_state :: logging_state where
  "startup_state =
     \<lparr>LoggingActive = False, ThreadedLogging = False, Appenders = [], LogMessageQueue = [],
      OutputPrefix = None, ShowThreadIdentifier = False, ShowLineNumber = False,
      Buffers = initial_rings, stderr_written = [], logMessage_calls = []\<rparr>"

text \<open>
  An environment in which the caller's format always renders as \<open>body\<close> and every
  allocation succeeds.
\<close>

definition plain_env :: "string \<Rightarrow> log_env" where
  "plain_env body =
     \<lparr>formatted_time = ''2016-01-01T00:00:00Z '', now = 1451606400, processId = 7,
      threadNumber = 1, render = (\<lambda>_. Some body), alloc_ok = (\<lambda>_. True), backtrace = [],
      store_alloc_ok = True, queue_ok = True, dup_ok = True\<rparr>"

section \<open>The level gate\<close>

text \<open>
  C3. For every level L and topic T: when the topic's override level is not DEFAULT,
  isEnabled(L, T) holds exactly when L is at most the override (as integers); when the
  override is DEFAULT, it holds exactly when L is at most the global level; and the
  one-argument isEnabled(L) holds exactly when L is at most the global level.
\<close>

theorem isEnabled_levels:
  "(topic_level T \<noteq> DEFAULT \<longrightarrow>
      isEnabled_topic g L T = (level_int L \<le> level_int (topic_level T))) \<and>
   (topic_level T = DEFAULT \<longrightarrow>
      isEnabled_topic g L T = (level_int L \<le> level_int g)) \<and>
   isEnabled g L = (level_int L \<le> level_int g)"
  by (simp add: isEnabled_def isEnabled_topic_def)

theorem isEnabled_levels_witness:
  "topic_level \<lparr>topic_id = 3, topic_name = ''queries'', topic_level = DEBUG\<rparr> \<noteq> DEFAULT \<and>
   isEnabled_topic INFO DEBUG \<lparr>topic_id = 3, topic_name = ''queries'', topic_level = DEBUG\<rparr> \<and>
   \<not> isEnabled_topic INFO TRACE \<lparr>topic_id = 3, topic_name = ''queries'', topic_level = DEBUG\<rparr> \<and>
   topic_level \<lparr>topic_id = 4, topic_name = ''requests'', topic_level = DEFAULT\<rparr> = DEFAULT \<and>
   \<not> isEnabled_topic INFO DEBUG \<lparr>topic_id = 4, topic_name = ''requests'', topic_level = DEFAULT\<rparr> \<and>
   isEnabled INFO WARN"
  using isEnabled_levels [of "\<lparr>topic_id = 3, topic_name = ''queries'', topic_level = DEBUG\<rparr>" INFO DEBUG]
    isEnabled_levels [of "\<lparr>topic_id = 3, topic_name = ''queries'', topic_level = DEBUG\<rparr>" INFO TRACE]
    isEnabled_levels [of "\<lparr>topic_id = 4, topic_name = ''requests'', topic_level = DEFAULT\<rparr>" INFO DEBUG]
    isEnabled_levels [of "\<lparr>topic_id = 4, topic_name = ''requests'', topic_level = DEFAULT\<rparr>" INFO WARN]
  by simp

section \<open>Dispatch to the appenders\<close>

lemma starts_with_iff: "starts_with full part \<longleftrightarrow> (\<exists>ss. full = part @ ss)"
  by (induction full part rule: starts_with.induct) auto

lemma TRI_IsContainedString_iff:
  "TRI_IsContainedString full part \<longleftrightarrow> (\<exists>ps ss. full = ps @ part @ ss)"
proof (induction full)
  case Nil
  then show ?case by auto
next
  case (Cons c cs)
  show ?case
  proof
    assume "TRI_IsContainedString (c # cs) part"
    then consider "starts_with (c # cs) part" | "TRI_IsContainedString cs part" by auto
    then show "\<exists>ps ss. c # cs = ps @ part @ ss"
    proof cases
      case 1
      then obtain ss where "c # cs = part @ ss" by (auto simp: starts_with_iff)
      then have "c # cs = [] @ part @ ss" by simp
      then show ?thesis by blast
    next
      case 2
      then obtain ps ss where "cs = ps @ part @ ss" using Cons.IH by blast
      then have "c # cs = (c # ps) @ part @ ss" by simp
      then show ?thesis by blast
    qed
  next
    assume "\<exists>ps ss. c # cs = ps @ part @ ss"
    then obtain ps ss where eq: "c # cs = ps @ part @ ss" by blast
    show "TRI_IsContainedString (c # cs) part"
    proof (cases ps)
      case Nil
      then have "starts_with (c # cs) part" using eq by (auto simp: starts_with_iff)
      then show ?thesis by simp
    next
      case (Cons p ps')
      then have "cs = ps' @ part @ ss" using eq by simp
      then have "TRI_IsContainedString cs part" using Cons.IH by blast
      then show ?thesis by simp
    qed
  qed
qed

lemma all_less_Suc_split: "(\<forall>j<Suc i. P j) \<longleftrightarrow> P 0 \<and> (\<forall>j<i. P (Suc j))"
  by (auto simp: less_Suc_eq_0_disj)

lemma dispatch_from_skip:
  "\<not> sink_matches sev msg it \<Longrightarrow>
   dispatch_from k (it # rest) sev msg = dispatch_from (Suc k) rest sev msg"
  by (auto simp: sink_matches_def split: option.splits)

lemma dispatch_from_hit:
  "sink_matches sev msg it \<Longrightarrow>
   dispatch_from k (it # rest) sev msg =
     k # (if consume it then [] else dispatch_from (Suc k) rest sev msg)"
  by (auto simp: sink_matches_def split: option.splits)

lemma dispatch_from_mem:
  "x \<in> set (dispatch_from k apps sev msg) \<longleftrightarrow>
     (\<exists>i. x = k + i \<and> i < length apps \<and> sink_matches sev msg (apps ! i) \<and>
        (\<forall>j<i. sink_matches sev msg (apps ! j) \<longrightarrow> \<not> consume (apps ! j)))"
proof (induction apps arbitrary: k)
  case Nil
  then show ?case by simp
next
  case (Cons it rest)
  let ?Q = "\<lambda>i. i < length (it # rest) \<and> sink_matches sev msg ((it # rest) ! i) \<and>
        (\<forall>j<i. sink_matches sev msg ((it # rest) ! j) \<longrightarrow> \<not> consume ((it # rest) ! j))"
  have ex_split: "(\<exists>i. x = k + i \<and> ?Q i) \<longleftrightarrow> (x = k \<and> ?Q 0) \<or> (\<exists>i. x = Suc k + i \<and> ?Q (Suc i))"
    (is "?L \<longleftrightarrow> ?R")
  proof
    assume ?L
    then obtain i where i: "x = k + i" "?Q i" by blast
    show ?R
    proof (cases i)
      case 0
      then show ?thesis using i by simp
    next
      case (Suc i')
      then have "x = Suc k + i'" "?Q (Suc i')" using i by simp_all
      then show ?thesis by blast
    qed
  next
    assume ?R
    then show ?L
    proof
      assume "x = k \<and> ?Q 0"
      then have "x = k + 0 \<and> ?Q 0" by simp
      then show ?L by blast
    next
      assume "\<exists>i. x = Suc k + i \<and> ?Q (Suc i)"
      then obtain i where "x = k + Suc i" "?Q (Suc i)" by auto
      then show ?L by blast
    qed
  qed
  show ?case
  proof (cases "sink_matches sev msg it")
    case False
    then show ?thesis
      unfolding ex_split by (simp add: dispatch_from_skip Cons.IH all_less_Suc_split del: dispatch_from.simps)
  next
    case True
    then show ?thesis
      unfolding ex_split by (auto simp add: dispatch_from_hit Cons.IH all_less_Suc_split simp del: dispatch_from.simps)
  qed
qed

lemma dispatch_from_ge: "x \<in> set (dispatch_from k apps sev msg) \<Longrightarrow> k \<le> x"
  by (induction apps arbitrary: k) (auto split: if_splits option.splits dest: Suc_leD)

lemma dispatch_from_sorted: "sorted_wrt (<) (dispatch_from k apps sev msg)"
  apply (induction apps arbitrary: k) 
   apply (auto split: if_splits option.splits dest!: dispatch_from_ge)
  done

text \<open>
  C2. Dispatch visits the sinks in registration order; a sink is skipped when its
  severity filter is set (not UNKNOWN) and differs from the record's severity, or its
  content filter is set and is not a substring of the message; logMessage is called on
  every matching sink up to and including the first matching sink whose consume flag is
  true. With two sinks that both match, the second one's logMessage is called exactly
  when the first one's consume flag is false.
\<close>

theorem dispatch_consume_chain:
  "sorted_wrt (<) (dispatch apps sev msg) \<and>
   (\<forall>i. i \<in> set (dispatch apps sev msg) \<longleftrightarrow>
      i < length apps \<and> sink_matches sev msg (apps ! i) \<and>
      (\<forall>j<i. sink_matches sev msg (apps ! j) \<longrightarrow> \<not> consume (apps ! j))) \<and>
   (sink_matches sev msg it \<longleftrightarrow>
      (severityFilter it = TRI_LOG_SEVERITY_UNKNOWN \<or> severityFilter it = sev) \<and>
      (\<forall>f. contentFilter it = Some f \<longrightarrow> (\<exists>ps ss. msg = ps @ f @ ss))) \<and>
   (sink_matches sev msg a \<and> sink_matches sev msg b \<longrightarrow>
      (1 \<in> set (dispatch [a, b] sev msg) \<longleftrightarrow> \<not> consume a))"
proof (intro conjI)
  show "sorted_wrt (<) (dispatch apps sev msg)"
    by (simp add: dispatch_def dispatch_from_sorted)
  show "\<forall>i. i \<in> set (dispatch apps sev msg) \<longleftrightarrow>
      i < length apps \<and> sink_matches sev msg (apps ! i) \<and>
      (\<forall>j<i. sink_matches sev msg (apps ! j) \<longrightarrow> \<not> consume (apps ! j))"
    by (simp add: dispatch_def dispatch_from_mem)
  show "sink_matches sev msg it \<longleftrightarrow>
      (severityFilter it = TRI_LOG_SEVERITY_UNKNOWN \<or> severityFilter it = sev) \<and>
      (\<forall>f. contentFilter it = Some f \<longrightarrow> (\<exists>ps ss. msg = ps @ f @ ss))"
    by (cases "contentFilter it") (simp_all add: sink_matches_def TRI_IsContainedString_iff)
  show "sink_matches sev msg a \<and> sink_matches sev msg b \<longrightarrow>
      (1 \<in> set (dispatch [a, b] sev msg) \<longleftrightarrow> \<not> consume a)"
    by (auto simp add: dispatch_def dispatch_from_hit simp del: dispatch_from.simps)
qed

theorem dispatch_consume_chain_witness:
  "sink_matches TRI_LOG_SEVERITY_HUMAN ''disk full''
     \<lparr>contentFilter = Some ''disk'', severityFilter = TRI_LOG_SEVERITY_UNKNOWN, consume = False\<rparr> \<and>
   sink_matches TRI_LOG_SEVERITY_HUMAN ''disk full''
     \<lparr>contentFilter = None, severityFilter = TRI_LOG_SEVERITY_HUMAN, consume = True\<rparr> \<and>
   1 \<in> set (dispatch
     [\<lparr>contentFilter = Some ''disk'', severityFilter = TRI_LOG_SEVERITY_UNKNOWN, consume = False\<rparr>,
      \<lparr>contentFilter = None, severityFilter = TRI_LOG_SEVERITY_HUMAN, consume = True\<rparr>]
     TRI_LOG_SEVERITY_HUMAN ''disk full'')"
  using dispatch_consume_chain [where sev = TRI_LOG_SEVERITY_HUMAN and msg = "''disk full''"
      and apps = "[] :: TRI_log_appender_t list"
      and it = "\<lparr>contentFilter = None, severityFilter = TRI_LOG_SEVERITY_HUMAN, consume = True\<rparr>"
      and a = "\<lparr>contentFilter = Some ''disk'', severityFilter = TRI_LOG_SEVERITY_UNKNOWN, consume = False\<rparr>"
      and b = "\<lparr>contentFilter = None, severityFilter = TRI_LOG_SEVERITY_HUMAN, consume = True\<rparr>"]
  by (simp add: sink_matches_def)

section \<open>The worker's idle interval\<close>

lemma worker_loop_idle:
  "map fst (worker_loop apps sl
      (replicate k \<lparr>swapped = [], active_read = True, queue_empty_read = False\<rparr>)) =
   map (\<lambda>i. min (sl + 1000 * (int i + 1)) 1000000) [0..<k]"
proof (induction k arbitrary: sl)
  case 0
  then show ?case by simp
next
  case (Suc k)
  have step: "fst (worker_iteration apps sl []) = min (sl + 1000) 1000000"
    by (simp add: worker_iteration_def Let_def min_def)
  have "map (\<lambda>i. min (sl + 1000 * (int i + 1)) 1000000) [0..<Suc k] =
      min (sl + 1000) 1000000 #
      map (\<lambda>i. min (sl + 1000 * (int (Suc i) + 1)) 1000000) [0..<k]"
    by (simp only: upt_conv_Cons [of 0 "Suc k"] map_Suc_upt [symmetric]) (simp add: comp_def)
  also have "map (\<lambda>i. min (sl + 1000 * (int (Suc i) + 1)) 1000000) [0..<k] =
      map (\<lambda>i. min (min (sl + 1000) 1000000 + 1000 * (int i + 1)) 1000000) [0..<k]"
    by (rule map_cong) (auto simp: min_def)
  finally show ?case
    using Suc.IH [of "min (sl + 1000) 1000000"]
    by (simp add: Let_def step del: upt_Suc)
qed

text \<open>
  C8, as the claim states it, fails: the worker starts with an interval of 100
  microseconds, and after one pass that found the queue empty the interval is 1100, not
  the doubled 200.
\<close>

theorem worker_interval_not_doubled:
  "fst (worker_iteration ([] :: TRI_log_appender_t list) 100 []) = 1100 \<and>
   fst (worker_iteration ([] :: TRI_log_appender_t list) 100 []) \<noteq> 2 * 100"
  by (simp add: worker_iteration_def)

text \<open>
  C8, amended. The worker's idle interval starts at 100 microseconds; each pass that
  finds the swapped-out list empty adds 1000 microseconds to it, up to a ceiling of
  1000000 microseconds (1 second), so after \<open>i + 1\<close> idle passes from the start it is
  the smaller of \<open>100 + 1000 * (i + 1)\<close> and 1000000; a pass that processed a
  non-empty batch sets it back to 100 microseconds.
\<close>

theorem worker_interval_steps:
  "map fst (MessageQueueWorker apps
      (replicate k \<lparr>swapped = [], active_read = True, queue_empty_read = False\<rparr>)) =
     map (\<lambda>i. min (100 + 1000 * (int i + 1)) 1000000) [0..<k] \<and>
   fst (worker_iteration apps sl buffer) =
     (if buffer = [] then min (sl + 1000) 1000000 else 100)"
  by (simp add: MessageQueueWorker_def worker_loop_idle worker_iteration_def Let_def min_def
      del: worker_loop.simps)

section \<open>The file appender: reopening and writing\<close>

lemma reopenLog_open_fails:
  assumes "filename a \<noteq> []" "r < 0"
  shows "fst (reopenLog r a fs) = a"
    and "files (snd (reopenLog r a fs)) (filename a) = files fs (filename a)"
    and "descriptors (snd (reopenLog r a fs)) = descriptors fs"
    and "\<forall>p. p \<noteq> filename a @ ''.old'' \<longrightarrow> files (snd (reopenLog r a fs)) p = files fs p"
  using assms
  by (auto simp: reopenLog_def Let_def TRI_UnlinkFile_def TRI_RenameFile_def TRI_CREATE_def
      split: option.splits)

text \<open>
  C7. For a file sink with a real file path, when reopen fails to open the new file at
  the original path: the original name refers to the file it referred to before (the
  rename to the \<^verbatim>\<open>.old\<close> backup is undone), every other path except the backup's is
  untouched, the sink is unchanged (its descriptor is the previously active one, which
  stays open), and for a console-aliased sink (empty file name) reopen changes nothing
  at all.
\<close>

theorem reopenLog_failure_keeps_sink:
  "(filename a \<noteq> [] \<and> r < 0 \<longrightarrow>
      fst (reopenLog r a fs) = a \<and>
      fd (fst (reopenLog r a fs)) = fd a \<and>
      files (snd (reopenLog r a fs)) (filename a) = files fs (filename a) \<and>
      descriptors (snd (reopenLog r a fs)) = descriptors fs \<and>
      (\<forall>p. p \<noteq> filename a @ ''.old'' \<longrightarrow> files (snd (reopenLog r a fs)) p = files fs p)) \<and>
   (filename a = [] \<longrightarrow> reopenLog r a fs = (a, fs))"
proof (intro conjI impI)
  assume h: "filename a \<noteq> [] \<and> r < 0"
  then show "fst (reopenLog r a fs) = a"
    by (simp add: reopenLog_open_fails(1))
  then show "fd (fst (reopenLog r a fs)) = fd a"
    by simp
  show "files (snd (reopenLog r a fs)) (filename a) = files fs (filename a)"
    using h by (simp add: reopenLog_open_fails(2))
  show "descriptors (snd (reopenLog r a fs)) = descriptors fs"
    using h by (simp add: reopenLog_open_fails(3))
  show "\<forall>p. p \<noteq> filename a @ ''.old'' \<longrightarrow> files (snd (reopenLog r a fs)) p = files fs p"
    using h reopenLog_open_fails(4) [of a r fs] by simp
next
  assume "filename a = []"
  then show "reopenLog r a fs = (a, fs)"
    by (simp add: reopenLog_def)
qed

theorem reopenLog_failure_keeps_sink_witness:
  "filename \<lparr>contentFilter = None, severityFilter = TRI_LOG_SEVERITY_UNKNOWN, consume = False,
      filename = ''/tmp/x.log'', fd = 5, fatal2stderr = True\<rparr> \<noteq> [] \<and>
   (- 1 :: int) < 0 \<and>
   fd (fst (reopenLog (- 1)
      \<lparr>contentFilter = None, severityFilter = TRI_LOG_SEVERITY_UNKNOWN, consume = False,
        filename = ''/tmp/x.log'', fd = 5, fatal2stderr = True\<rparr>
      \<lparr>files = [''/tmp/x.log'' \<mapsto> 7, ''/tmp/x.log.old'' \<mapsto> 3], descriptors = [5 \<mapsto> 7],
        next_file = 8\<rparr>)) = 5 \<and>
   files (snd (reopenLog (- 1)
      \<lparr>contentFilter = None, severityFilter = TRI_LOG_SEVERITY_UNKNOWN, consume = False,
        filename = ''/tmp/x.log'', fd = 5, fatal2stderr = True\<rparr>
      \<lparr>files = [''/tmp/x.log'' \<mapsto> 7, ''/tmp/x.log.old'' \<mapsto> 3], descriptors = [5 \<mapsto> 7],
        next_file = 8\<rparr>)) ''/tmp/x.log'' = Some 7"
  using reopenLog_failure_keeps_sink [of
      "\<lparr>contentFilter = None, severityFilter = TRI_LOG_SEVERITY_UNKNOWN, consume = False,
        filename = ''/tmp/x.log'', fd = 5, fatal2stderr = True\<rparr>"
      "- 1"
      "\<lparr>files = [''/tmp/x.log'' \<mapsto> 7, ''/tmp/x.log.old'' \<mapsto> 3], descriptors = [5 \<mapsto> 7],
        next_file = 8\<rparr>"]
  by simp

lemma writeLogFile_loop_zero_writes:
  "0 < len \<Longrightarrow> writeLogFile_loop (\<lambda>_. 0) k buffer len giveUp out = None"
proof (induction arbitrary: k buffer len giveUp out rule: writeLogFile_loop.fixp_induct)
  case 1
  show ?case by (rule ccpo.admissibleI) (auto simp: fun_lub_def flat_lub_def)
next
  case 2
  then show ?case by simp
next
  case (3 f)
  then show ?case by simp
qed

lemma writeLogFile_negative_result:
  "0 < len \<Longrightarrow> wr k < 0 \<Longrightarrow>
   writeLogFile_loop wr k buffer len giveUp out = Some (WriteFailed out)"
  by (subst writeLogFile_loop.simps) simp

lemma writeLogFile_one_zero_then_progress:
  "writeLogFile (\<lambda>k. if k = 0 then 0 else if k = 1 then 2 else 1) ''abc'' 3 =
     Some (Written ''abc'')"
  by (simp add: writeLogFile_def writeLogFile_loop.simps)

text \<open>
  C9 fails on the code. On a descriptor whose every write returns 0, the write loop for
  a one-byte buffer never returns: the first zero-length write sets \<^verbatim>\<open>giveUp\<close>, and the
  second one, instead of giving up, adds 0 to the position and retries, for ever.
\<close>

theorem writeLogFile_zero_writes_never_return:
  "writeLogFile (\<lambda>_. 0) ''x'' 1 = None"
  by (simp add: writeLogFile_def writeLogFile_loop_zero_writes)

section \<open>The ring buffers\<close>

lemma length_ring_oldest_first:
  "length (ring_oldest_first st pos) = OUTPUT_BUFFER_SIZE"
  by (simp add: ring_oldest_first_def)

lemma ring_slot_shift:
  "Suc (Suc c mod OUTPUT_BUFFER_SIZE + j) mod OUTPUT_BUFFER_SIZE =
     Suc (Suc (c + j)) mod OUTPUT_BUFFER_SIZE"
proof -
  have "(Suc c mod OUTPUT_BUFFER_SIZE + Suc j) mod OUTPUT_BUFFER_SIZE =
      (Suc c + Suc j) mod OUTPUT_BUFFER_SIZE"
    by (rule mod_add_left_eq)
  then show ?thesis by simp
qed

lemma ring_slot_distinct:
  assumes "Suc j < OUTPUT_BUFFER_SIZE"
  shows "Suc (Suc (c + j)) mod OUTPUT_BUFFER_SIZE \<noteq> Suc c mod OUTPUT_BUFFER_SIZE"
proof
  assume "Suc (Suc (c + j)) mod OUTPUT_BUFFER_SIZE = Suc c mod OUTPUT_BUFFER_SIZE"
  then have "(Suc c + Suc j) mod OUTPUT_BUFFER_SIZE = Suc c mod OUTPUT_BUFFER_SIZE"
    by simp
  then have "OUTPUT_BUFFER_SIZE dvd (Suc c + Suc j) - Suc c"
    by (simp add: mod_eq_dvd_iff_nat)
  then have "OUTPUT_BUFFER_SIZE dvd Suc j"
    by simp
  then have "OUTPUT_BUFFER_SIZE \<le> Suc j"
    by (rule dvd_imp_le) simp
  then show False using assms by simp
qed

lemma ring_slot_last:
  assumes "Suc j = OUTPUT_BUFFER_SIZE"
  shows "Suc (Suc c mod OUTPUT_BUFFER_SIZE + j) mod OUTPUT_BUFFER_SIZE =
     Suc c mod OUTPUT_BUFFER_SIZE"
proof -
  have "Suc (Suc (c + j)) = Suc c + OUTPUT_BUFFER_SIZE"
    using assms by arith
  then have "Suc (Suc (c + j)) mod OUTPUT_BUFFER_SIZE = Suc c mod OUTPUT_BUFFER_SIZE"
    by (simp only: mod_add_self2)
  then show ?thesis by (simp only: ring_slot_shift)
qed

lemma OUTPUT_BUFFER_SIZE_pos: "0 < OUTPUT_BUFFER_SIZE"
  by (simp add: OUTPUT_BUFFER_SIZE_def)

lemma ring_oldest_first_insert:
  assumes "level < OUTPUT_LOG_LEVELS" "stored_text ok tx = Some msg"
  shows "ring_oldest_first (StoreOutput ok level timestamp tx st) level =
     tl (ring_oldest_first st level) @
       [\<lparr>buf_lid = BufferLID st, buf_level = level, buf_timestamp = timestamp,
         buf_text = Some msg\<rparr>]"
proof (rule nth_equalityI)
  show "length (ring_oldest_first (StoreOutput ok level timestamp tx st) level) =
      length (tl (ring_oldest_first st level) @
       [\<lparr>buf_lid = BufferLID st, buf_level = level, buf_timestamp = timestamp,
         buf_text = Some msg\<rparr>])"
    using OUTPUT_BUFFER_SIZE_pos by (simp add: length_ring_oldest_first)
next
  fix j
  assume "j < length (ring_oldest_first (StoreOutput ok level timestamp tx st) level)"
  then have j: "j < OUTPUT_BUFFER_SIZE" by (simp add: length_ring_oldest_first)
  show "ring_oldest_first (StoreOutput ok level timestamp tx st) level ! j =
      (tl (ring_oldest_first st level) @
       [\<lparr>buf_lid = BufferLID st, buf_level = level, buf_timestamp = timestamp,
         buf_text = Some msg\<rparr>]) ! j"
  proof (cases "Suc j < OUTPUT_BUFFER_SIZE")
    case True
    then show ?thesis
      using assms j
      by (simp add: ring_oldest_first_def StoreOutput_def Let_def
          nth_append nth_tl ring_slot_shift ring_slot_distinct)
  next
    case False
    then have "Suc j = OUTPUT_BUFFER_SIZE" using j by simp
    then show ?thesis
      using assms j
      by (simp add: ring_oldest_first_def StoreOutput_def Let_def
          nth_append ring_slot_last)
  qed
qed

lemma ring_oldest_first_other:
  assumes "level \<noteq> pos"
  shows "ring_oldest_first (StoreOutput ok level timestamp tx st) pos = ring_oldest_first st pos"
  using assms
  by (simp add: ring_oldest_first_def StoreOutput_def Let_def split: option.splits)

lemma ring_oldest_first_no_insert:
  assumes "\<not> (level < OUTPUT_LOG_LEVELS \<and> stored_text ok tx \<noteq> None)"
  shows "StoreOutput ok level timestamp tx st = st"
  using assms by (auto simp: StoreOutput_def Let_def split: option.splits)

lemma BufferLID_StoreOutput:
  "BufferLID (StoreOutput ok level timestamp tx st) =
     (if level < OUTPUT_LOG_LEVELS \<and> stored_text ok tx \<noteq> None then BufferLID st + 1
      else BufferLID st)"
  by (auto simp: StoreOutput_def Let_def split: option.splits)

lemma store_all_Cons:
  "store_all ((ok, level, timestamp, tx) # calls) st =
     store_all calls (StoreOutput ok level timestamp tx st)"
  by (simp add: store_all_def)

lemma insert_log_skip:
  "\<not> (level < OUTPUT_LOG_LEVELS \<and> stored_text ok tx \<noteq> None) \<Longrightarrow>
   insert_log ((ok, level, timestamp, tx) # calls) l = insert_log calls l"
  by auto

lemma insert_log_hit:
  "level < OUTPUT_LOG_LEVELS \<Longrightarrow> stored_text ok tx = Some msg \<Longrightarrow>
   insert_log ((ok, level, timestamp, tx) # calls) l =
     \<lparr>buf_lid = l, buf_level = level, buf_timestamp = timestamp, buf_text = Some msg\<rparr> #
       insert_log calls (l + 1)"
  by simp

lemma ring_oldest_first_store_all:
  "ring_oldest_first (store_all calls st) pos =
     drop (length (filter (\<lambda>e. buf_level e = pos) (insert_log calls (BufferLID st))))
       (ring_oldest_first st pos @ filter (\<lambda>e. buf_level e = pos) (insert_log calls (BufferLID st)))"
proof (induction calls arbitrary: st)
  case Nil
  then show ?case by (simp add: store_all_def)
next
  case (Cons c calls)
  obtain ok level timestamp tx where c: "c = (ok, level, timestamp, tx)"
    by (cases c) auto
  let ?st1 = "StoreOutput ok level timestamp tx st"
  let ?E' = "\<lambda>l. filter (\<lambda>e. buf_level e = pos) (insert_log calls l)"
  have step: "ring_oldest_first (store_all (c # calls) st) pos =
      drop (length (?E' (BufferLID ?st1))) (ring_oldest_first ?st1 pos @ ?E' (BufferLID ?st1))"
    using Cons.IH [of ?st1] by (simp only: c store_all_Cons)
  show ?case
  proof (cases "level < OUTPUT_LOG_LEVELS \<and> stored_text ok tx \<noteq> None")
    case False
    have "?st1 = st" using False by (rule ring_oldest_first_no_insert)
    moreover have "insert_log (c # calls) (BufferLID st) = insert_log calls (BufferLID st)"
      unfolding c using False by (rule insert_log_skip)
    ultimately show ?thesis using step by simp
  next
    case True
    then obtain msg where msg: "stored_text ok tx = Some msg" and lv: "level < OUTPUT_LOG_LEVELS"
      by auto
    let ?e = "\<lparr>buf_lid = BufferLID st, buf_level = level, buf_timestamp = timestamp,
        buf_text = Some msg\<rparr>"
    have lid1: "BufferLID ?st1 = BufferLID st + 1"
      using True by (simp add: BufferLID_StoreOutput)
    have log: "insert_log (c # calls) (BufferLID st) = ?e # insert_log calls (BufferLID st + 1)"
      unfolding c using lv msg by (rule insert_log_hit)
    show ?thesis
    proof (cases "level = pos")
      case False
      have "ring_oldest_first ?st1 pos = ring_oldest_first st pos"
        using False by (rule ring_oldest_first_other)
      moreover have "filter (\<lambda>e. buf_level e = pos) (insert_log (c # calls) (BufferLID st)) =
          ?E' (BufferLID st + 1)"
        using False by (simp add: log)
      ultimately show ?thesis using step by (simp only: lid1)
    next
      case same: True
      have "ring_oldest_first st pos \<noteq> []"
        using length_ring_oldest_first [of st pos] OUTPUT_BUFFER_SIZE_pos by auto
      then obtain x xs where xs: "ring_oldest_first st pos = x # xs"
        by (cases "ring_oldest_first st pos") auto
      have v1: "ring_oldest_first ?st1 pos = xs @ [?e]"
        using ring_oldest_first_insert [OF lv msg, of timestamp st] same xs by simp
      have E: "filter (\<lambda>e. buf_level e = pos) (insert_log (c # calls) (BufferLID st)) =
          ?e # ?E' (BufferLID st + 1)"
        using same by (simp add: log)
      have "ring_oldest_first (store_all (c # calls) st) pos =
          drop (length (?E' (BufferLID st + 1))) ((xs @ [?e]) @ ?E' (BufferLID st + 1))"
        using step by (simp only: lid1 v1)
      also have "\<dots> = drop (Suc (length (?E' (BufferLID st + 1))))
          ((x # xs) @ ?e # ?E' (BufferLID st + 1))"
        by simp
      finally show ?thesis by (simp only: E xs length_Cons)
    qed
  qed
qed

lemma insert_log_lids:
  "map buf_lid (insert_log calls l) = map (\<lambda>i. l + of_nat i) [0..<length (insert_log calls l)]"
proof (induction calls arbitrary: l)
  case Nil
  then show ?case by simp
next
  case (Cons c calls)
  obtain ok level timestamp tx where c: "c = (ok, level, timestamp, tx)"
    by (cases c) auto
  show ?case
  proof (cases "level < OUTPUT_LOG_LEVELS \<and> stored_text ok tx \<noteq> None")
    case False
    have "insert_log (c # calls) l = insert_log calls l"
      unfolding c using False by (rule insert_log_skip)
    then show ?thesis using Cons.IH [of l] by simp
  next
    case True
    then obtain msg where msg: "stored_text ok tx = Some msg" and lv: "level < OUTPUT_LOG_LEVELS"
      by auto
    let ?n = "length (insert_log calls (l + 1))"
    have log: "insert_log (c # calls) l =
        \<lparr>buf_lid = l, buf_level = level, buf_timestamp = timestamp, buf_text = Some msg\<rparr> #
          insert_log calls (l + 1)"
      unfolding c using lv msg by (rule insert_log_hit)
    have "map (\<lambda>i. l + of_nat i) [0..<Suc ?n] = l # map (\<lambda>i. l + of_nat i) (map Suc [0..<?n])"
      by (simp only: upt_conv_Cons [of 0 "Suc ?n"] map_Suc_upt) simp
    also have "\<dots> = l # map (\<lambda>i. l + 1 + of_nat i) [0..<?n]"
      by (simp add: add.assoc)
    finally have "map (\<lambda>i. l + of_nat i) [0..<Suc ?n] = l # map buf_lid (insert_log calls (l + 1))"
      using Cons.IH [of "l + 1"] by simp
    then show ?thesis by (simp only: log length_Cons list.map) simp
  qed
qed

lemma length_insert_log: "length (insert_log calls l) \<le> length calls"
  by (induction calls l rule: insert_log.induct) auto

lemma insert_log_level: "e \<in> set (insert_log calls l) \<Longrightarrow> buf_text e \<noteq> None \<and> buf_level e < OUTPUT_LOG_LEVELS"
  by (induction calls l rule: insert_log.induct) (auto split: if_splits)

lemma word_offsets_increase:
  fixes l :: "64 word"
  assumes "unat l + n \<le> 2 ^ 64"
  shows "sorted_wrt (<) (map (\<lambda>i. l + of_nat i) [0..<n])"
proof -
  have "l + of_nat i < l + of_nat j" if "i < j" "j < n" for i j
  proof -
    have "unat (l + of_nat i) = unat l + i" "unat (l + of_nat j) = unat l + j"
      using that assms by (simp_all add: unat_word_ariths unat_of_nat)
    then show ?thesis using that by (simp add: word_less_nat_alt)
  qed
  then show ?thesis
    by (simp add: sorted_wrt_iff_nth_less)
qed

lemma ring_window_after_inserts:
  assumes "length calls < 2 ^ 64 - 1"
    and "OUTPUT_BUFFER_SIZE < length (filter (\<lambda>e. buf_level e = pos) (insert_log calls 1))"
  shows "ring_oldest_first (store_all calls initial_rings) pos =
      drop (length (filter (\<lambda>e. buf_level e = pos) (insert_log calls 1)) - OUTPUT_BUFFER_SIZE)
        (filter (\<lambda>e. buf_level e = pos) (insert_log calls 1)) \<and>
    length (ring_oldest_first (store_all calls initial_rings) pos) = OUTPUT_BUFFER_SIZE \<and>
    sorted_wrt (<) (map buf_lid (insert_log calls 1)) \<and>
    sorted_wrt (<) (map buf_lid (ring_oldest_first (store_all calls initial_rings) pos))"
proof -
  let ?E = "filter (\<lambda>e. buf_level e = pos) (insert_log calls 1)"
  let ?view = "ring_oldest_first (store_all calls initial_rings) pos"
  have lid0: "BufferLID initial_rings = 1"
    by (simp add: initial_rings_def)
  have "?view = drop (length ?E) (ring_oldest_first initial_rings pos @ ?E)"
    using ring_oldest_first_store_all [of calls initial_rings pos] by (simp only: lid0)
  also have "\<dots> = drop (length ?E - OUTPUT_BUFFER_SIZE) ?E"
    using assms(2) by (simp add: length_ring_oldest_first)
  finally have view: "?view = drop (length ?E - OUTPUT_BUFFER_SIZE) ?E" .
  have "length (insert_log calls 1) \<le> length calls"
    by (rule length_insert_log)
  then have "unat (1 :: 64 word) + length (insert_log calls 1) \<le> 2 ^ 64"
    using assms(1) by simp
  then have "sorted_wrt (<) (map (\<lambda>i. (1 :: 64 word) + of_nat i) [0..<length (insert_log calls 1)])"
    by (rule word_offsets_increase)
  then have all: "sorted_wrt (<) (map buf_lid (insert_log calls 1))"
    by (simp only: insert_log_lids [symmetric])
  then have "sorted_wrt (\<lambda>a b. buf_lid a < buf_lid b) (insert_log calls 1)"
    by (simp add: sorted_wrt_map)
  then have "sorted_wrt (\<lambda>a b. buf_lid a < buf_lid b) ?E"
    by (rule sorted_wrt_filter)
  then have "sorted_wrt (\<lambda>a b. buf_lid a < buf_lid b) (drop (length ?E - OUTPUT_BUFFER_SIZE) ?E)"
    by (rule sorted_wrt_drop)
  then have sorted_view: "sorted_wrt (<) (map buf_lid ?view)"
    by (simp only: view sorted_wrt_map)
  have "length ?view = OUTPUT_BUFFER_SIZE"
    by (rule length_ring_oldest_first)
  with view all sorted_view show ?thesis
    by blast
qed

section \<open>The query of the ring buffers\<close>

lemma read_slot_in_range:
  "i < OUTPUT_LOG_LEVELS \<Longrightarrow>
   read_slot st i (c mod OUTPUT_BUFFER_SIZE) = Some (BufferOutput st i (c mod OUTPUT_BUFFER_SIZE))"
  using OUTPUT_BUFFER_SIZE_pos by (simp add: read_slot_def)

lemma scan_ring_in_range:
  assumes "i < OUTPUT_LOG_LEVELS"
  shows "scan_ring st start copy_ok i js =
     Inr (filter (query_keeps start copy_ok)
       (map (\<lambda>j. BufferOutput st i ((BufferCurrent st i + j) mod OUTPUT_BUFFER_SIZE)) js))"
  using assms by (induction js) (simp_all add: read_slot_in_range Let_def)

lemma scan_rings_in_range:
  assumes "\<forall>i\<in>set is. i < OUTPUT_LOG_LEVELS"
  shows "scan_rings st start copy_ok is =
     Inr (concat (map (\<lambda>i. filter (query_keeps start copy_ok) (ring_scan_order st i)) is))"
  using assms
  by (induction "is") (simp_all add: scan_ring_in_range ring_scan_order_def)

lemma TRI_BufferLogging_result:
  "TRI_BufferLogging True copy_ok level start useUpto st =
     Inr (qsort LidCompare
       (concat (map (\<lambda>i. filter (query_keeps start copy_ok) (ring_scan_order st i))
          [(if useUpto then 0 else min level (OUTPUT_LOG_LEVELS - 1))..<
           Suc (min level (OUTPUT_LOG_LEVELS - 1))])))"
proof -
  let ?pos = "if level \<ge> OUTPUT_LOG_LEVELS then OUTPUT_LOG_LEVELS - 1 else level"
  have pos: "?pos = min level (OUTPUT_LOG_LEVELS - 1)"
    by (simp add: OUTPUT_LOG_LEVELS_def min_def)
  have "\<forall>i\<in>set [(if \<not> useUpto then ?pos else 0)..<Suc ?pos]. i < OUTPUT_LOG_LEVELS"
    by (auto simp: OUTPUT_LOG_LEVELS_def)
  then have "scan_rings st start copy_ok [(if \<not> useUpto then ?pos else 0)..<Suc ?pos] =
     Inr (concat (map (\<lambda>i. filter (query_keeps start copy_ok) (ring_scan_order st i))
        [(if \<not> useUpto then ?pos else 0)..<Suc ?pos]))"
    by (rule scan_rings_in_range)
  then show ?thesis
    unfolding TRI_BufferLogging_def Let_def pos [symmetric]
    by (cases useUpto) simp_all
qed

lemma TRI_BufferLogging_never_out_of_range:
  "TRI_BufferLogging vec_ok copy_ok level start useUpto st \<noteq> Inl OutOfRange"
proof (cases vec_ok)
  case True
  then show ?thesis by (simp add: TRI_BufferLogging_result)
next
  case False
  then show ?thesis by (simp add: TRI_BufferLogging_def)
qed

text \<open>
  C10. For every start id and cumulative flag, a query with a level index at or beyond
  the number of rings (6) reads no slot outside the arrays: the index is clamped to the
  last ring (index 5), and the result is exactly the result of the same query at the
  TRACE level (6), which is clamped in the same way. No query at any level reads out
  of range.
\<close>

theorem TRI_BufferLogging_level_clamped:
  "(OUTPUT_LOG_LEVELS \<le> level \<longrightarrow>
      TRI_BufferLogging vec_ok copy_ok level start useUpto st =
        TRI_BufferLogging vec_ok copy_ok TRI_LOG_LEVEL_TRACE start useUpto st \<and>
      TRI_BufferLogging vec_ok copy_ok level start useUpto st =
        TRI_BufferLogging vec_ok copy_ok (OUTPUT_LOG_LEVELS - 1) start useUpto st) \<and>
   TRI_BufferLogging vec_ok copy_ok level start useUpto st \<noteq> Inl OutOfRange"
proof
  show "OUTPUT_LOG_LEVELS \<le> level \<longrightarrow>
      TRI_BufferLogging vec_ok copy_ok level start useUpto st =
        TRI_BufferLogging vec_ok copy_ok TRI_LOG_LEVEL_TRACE start useUpto st \<and>
      TRI_BufferLogging vec_ok copy_ok level start useUpto st =
        TRI_BufferLogging vec_ok copy_ok (OUTPUT_LOG_LEVELS - 1) start useUpto st"
    by (simp add: TRI_BufferLogging_def TRI_LOG_LEVEL_TRACE_def OUTPUT_LOG_LEVELS_def)
  show "TRI_BufferLogging vec_ok copy_ok level start useUpto st \<noteq> Inl OutOfRange"
    by (rule TRI_BufferLogging_never_out_of_range)
qed

theorem TRI_BufferLogging_level_clamped_witness:
  "OUTPUT_LOG_LEVELS \<le> 9 \<and>
   TRI_BufferLogging True (\<lambda>_. True) 9 0 True (StoreOutput True 5 0 ''x'' initial_rings) =
     TRI_BufferLogging True (\<lambda>_. True) TRI_LOG_LEVEL_TRACE 0 True
       (StoreOutput True 5 0 ''x'' initial_rings) \<and>
   TRI_BufferLogging True (\<lambda>_. True) 9 0 True (StoreOutput True 5 0 ''x'' initial_rings) \<noteq>
     Inl OutOfRange"
proof -
  have h: "OUTPUT_LOG_LEVELS \<le> 9"
    by (simp add: OUTPUT_LOG_LEVELS_def)
  show ?thesis
    using h TRI_BufferLogging_level_clamped [of 9 True "\<lambda>_. True" 0 True
      "StoreOutput True 5 0 ''x'' initial_rings"]
    by blast
qed

section \<open>The order of the query's result\<close>

lemma ring_scan_order_newest_first:
  "ring_scan_order st i = last (ring_oldest_first st i) # butlast (ring_oldest_first st i)"
proof (rule nth_equalityI)
  show "length (ring_scan_order st i) =
      length (last (ring_oldest_first st i) # butlast (ring_oldest_first st i))"
    using OUTPUT_BUFFER_SIZE_pos by (simp add: ring_scan_order_def length_ring_oldest_first)
next
  fix j
  assume "j < length (ring_scan_order st i)"
  then have j: "j < OUTPUT_BUFFER_SIZE" by (simp add: ring_scan_order_def)
  have ne: "ring_oldest_first st i \<noteq> []"
    using length_ring_oldest_first [of st i] OUTPUT_BUFFER_SIZE_pos by auto
  show "ring_scan_order st i ! j =
      (last (ring_oldest_first st i) # butlast (ring_oldest_first st i)) ! j"
  proof (cases j)
    case 0
    have "last (ring_oldest_first st i) =
        ring_oldest_first st i ! (OUTPUT_BUFFER_SIZE - 1)"
      using ne by (simp add: last_conv_nth length_ring_oldest_first)
    also have "\<dots> = BufferOutput st i
        ((BufferCurrent st i + 1 + (OUTPUT_BUFFER_SIZE - 1)) mod OUTPUT_BUFFER_SIZE)"
      using OUTPUT_BUFFER_SIZE_pos by (simp add: ring_oldest_first_def)
    also have "BufferCurrent st i + 1 + (OUTPUT_BUFFER_SIZE - 1) =
        BufferCurrent st i + OUTPUT_BUFFER_SIZE"
      using OUTPUT_BUFFER_SIZE_pos by simp
    finally show ?thesis using 0 j by (simp add: ring_scan_order_def)
  next
    case (Suc k)
    then have k: "k < OUTPUT_BUFFER_SIZE - 1" using j by simp
    then have "butlast (ring_oldest_first st i) ! k = ring_oldest_first st i ! k"
      by (simp add: nth_butlast length_ring_oldest_first)
    also have "\<dots> = BufferOutput st i ((BufferCurrent st i + 1 + k) mod OUTPUT_BUFFER_SIZE)"
      using k by (simp add: ring_oldest_first_def)
    finally show ?thesis using Suc j by (simp add: ring_scan_order_def)
  qed
qed

lemma ring_oldest_first_initial:
  "ring_oldest_first initial_rings i = replicate OUTPUT_BUFFER_SIZE empty_slot"
  by (simp add: ring_oldest_first_def initial_rings_def map_replicate_const)

lemma insert_log_append:
  "insert_log (xs @ ys) l =
     insert_log xs l @ insert_log ys (l + of_nat (length (insert_log xs l)))"
  by (induction xs l rule: insert_log.induct) (auto simp add: add.assoc)

lemma insert_log_replicate:
  assumes "level < OUTPUT_LOG_LEVELS" "length tx \<le> OUTPUT_MAX_LENGTH"
  shows "insert_log (replicate n (True, level, timestamp, tx)) l =
     map (\<lambda>k. \<lparr>buf_lid = l + of_nat k, buf_level = level, buf_timestamp = timestamp,
                buf_text = Some tx\<rparr>) [0..<n]"
proof (induction n arbitrary: l)
  case 0
  then show ?case by simp
next
  case (Suc n)
  have tx: "stored_text True tx = Some tx"
    using assms(2) by (simp add: stored_text_def)
  have "map (\<lambda>k. \<lparr>buf_lid = l + of_nat k, buf_level = level, buf_timestamp = timestamp,
                buf_text = Some tx\<rparr>) [0..<Suc n] =
      \<lparr>buf_lid = l, buf_level = level, buf_timestamp = timestamp, buf_text = Some tx\<rparr> #
      map (\<lambda>k. \<lparr>buf_lid = l + 1 + of_nat k, buf_level = level, buf_timestamp = timestamp,
                buf_text = Some tx\<rparr>) [0..<n]"
    by (simp only: upt_conv_Cons [of 0 "Suc n"] map_Suc_upt [symmetric])
      (simp add: add.assoc)
  then show ?case
    using assms(1) tx Suc.IH [of "l + 1"] by (simp del: upt_Suc)
qed

lemma insert_log_far_apart:
  "insert_log ((True, 1, 0, ''a'') # replicate n (True, 4, 0, ''b'') @ [(True, 2, 0, ''c'')]) 1 =
     \<lparr>buf_lid = 1, buf_level = 1, buf_timestamp = 0, buf_text = Some ''a''\<rparr> #
     map (\<lambda>k. \<lparr>buf_lid = 2 + of_nat k, buf_level = 4, buf_timestamp = 0, buf_text = Some ''b''\<rparr>)
       [0..<n] @
     [\<lparr>buf_lid = 2 + of_nat n, buf_level = 2, buf_timestamp = 0, buf_text = Some ''c''\<rparr>]"
proof -
  have b: "insert_log (replicate n (True, 4, 0, ''b'')) (2 :: 64 word) =
      map (\<lambda>k. \<lparr>buf_lid = 2 + of_nat k, buf_level = 4, buf_timestamp = 0, buf_text = Some ''b''\<rparr>)
       [0..<n]"
    by (rule insert_log_replicate) (simp_all add: OUTPUT_LOG_LEVELS_def OUTPUT_MAX_LENGTH_def)
  have a: "stored_text True ''a'' = Some ''a''" "stored_text True ''c'' = Some ''c''"
    by (simp_all add: stored_text_def OUTPUT_MAX_LENGTH_def)
  have "insert_log ((True, 1, 0, ''a'') # replicate n (True, 4, 0, ''b'') @ [(True, 2, 0, ''c'')]) 1 =
     \<lparr>buf_lid = 1, buf_level = 1, buf_timestamp = 0, buf_text = Some ''a''\<rparr> #
     insert_log (replicate n (True, 4, 0, ''b'') @ [(True, 2, 0, ''c'')]) 2"
    using a by (simp add: OUTPUT_LOG_LEVELS_def)
  also have "insert_log (replicate n (True, 4, 0, ''b'') @ [(True, 2, 0, ''c'')]) (2 :: 64 word) =
      insert_log (replicate n (True, 4, 0, ''b'')) 2 @
      insert_log [(True, 2, 0, ''c'')] (2 + of_nat (length (insert_log (replicate n (True, 4, 0, ''b'')) (2 :: 64 word))))"
    by (rule insert_log_append)
  also have "insert_log [(True, 2, 0, ''c'')] (2 + of_nat (length (insert_log (replicate n (True, 4, 0, ''b'')) (2 :: 64 word)))) =
      [\<lparr>buf_lid = 2 + of_nat n, buf_level = 2, buf_timestamp = 0, buf_text = Some ''c''\<rparr>]"
    using a by (simp add: b OUTPUT_LOG_LEVELS_def)
  finally show ?thesis by (simp only: b append_Cons)
qed

lemma empty_slot_not_kept: "\<not> query_keeps start copy_ok empty_slot"
  by (simp add: query_keeps_def empty_slot_def)

lemma one_entry_ring:
  assumes "filter (\<lambda>e. buf_level e = i) (insert_log calls 1) = [e]"
    and "query_keeps start copy_ok e"
  shows "filter (query_keeps start copy_ok) (ring_scan_order (store_all calls initial_rings) i) = [e]"
proof -
  have lid0: "BufferLID initial_rings = 1"
    by (simp add: initial_rings_def)
  have "ring_oldest_first (store_all calls initial_rings) i =
      drop 1 (replicate OUTPUT_BUFFER_SIZE empty_slot @ [e])"
    using ring_oldest_first_store_all [of calls initial_rings i]
    by (simp only: lid0 assms(1) ring_oldest_first_initial) simp
  also have "\<dots> = replicate (OUTPUT_BUFFER_SIZE - 1) empty_slot @ [e]"
    using OUTPUT_BUFFER_SIZE_pos by simp
  finally show ?thesis
    using assms(2) by (simp add: ring_scan_order_newest_first empty_slot_not_kept)
qed

lemma no_entry_ring:
  assumes "filter (\<lambda>e. buf_level e = i) (insert_log calls 1) = []"
  shows "filter (query_keeps start copy_ok) (ring_scan_order (store_all calls initial_rings) i) = []"
proof -
  have lid0: "BufferLID initial_rings = 1"
    by (simp add: initial_rings_def)
  have "ring_oldest_first (store_all calls initial_rings) i =
      replicate OUTPUT_BUFFER_SIZE empty_slot"
    using ring_oldest_first_store_all [of calls initial_rings i]
    by (simp only: lid0 assms(1) ring_oldest_first_initial) simp
  then have "set (ring_scan_order (store_all calls initial_rings) i) \<subseteq> {empty_slot}"
    using OUTPUT_BUFFER_SIZE_pos
    by (auto simp add: ring_scan_order_newest_first dest: in_set_butlastD)
  then show ?thesis
    by (auto simp add: filter_empty_conv empty_slot_not_kept)
qed

lemma TRI_BufferLogging_far_apart:
  "TRI_BufferLogging True (\<lambda>_. True) 2 0 True
     (store_all ((True, 1, 0, ''a'') # replicate n (True, 4, 0, ''b'') @ [(True, 2, 0, ''c'')])
        initial_rings) =
   Inr (qsort LidCompare
     [\<lparr>buf_lid = 1, buf_level = 1, buf_timestamp = 0, buf_text = Some ''a''\<rparr>,
      \<lparr>buf_lid = 2 + of_nat n, buf_level = 2, buf_timestamp = 0, buf_text = Some ''c''\<rparr>])"
proof -
  let ?calls = "(True, 1, 0, ''a'') # replicate n (True, 4, 0, ''b'') @ [(True, 2, 0, ''c'')]"
  let ?st = "store_all ?calls initial_rings"
  let ?e1 = "\<lparr>buf_lid = 1, buf_level = 1, buf_timestamp = 0, buf_text = Some ''a''\<rparr>"
  let ?e2 = "\<lparr>buf_lid = 2 + of_nat n, buf_level = 2, buf_timestamp = 0, buf_text = Some ''c''\<rparr>"
  have E0: "filter (\<lambda>e. buf_level e = 0) (insert_log ?calls 1) = []"
    by (simp only: insert_log_far_apart) (simp add: filter_map o_def)
  have E1: "filter (\<lambda>e. buf_level e = 1) (insert_log ?calls 1) = [?e1]"
    by (simp only: insert_log_far_apart) (simp add: filter_map o_def)
  have E2: "filter (\<lambda>e. buf_level e = 2) (insert_log ?calls 1) = [?e2]"
    by (simp only: insert_log_far_apart) (simp add: filter_map o_def)
  have r0: "filter (query_keeps 0 (\<lambda>_. True)) (ring_scan_order ?st 0) = []"
    using E0 by (rule no_entry_ring)
  have r1: "filter (query_keeps 0 (\<lambda>_. True)) (ring_scan_order ?st 1) = [?e1]"
    using E1 by (rule one_entry_ring) (simp add: query_keeps_def)
  have r2: "filter (query_keeps 0 (\<lambda>_. True)) (ring_scan_order ?st 2) = [?e2]"
    using E2 by (rule one_entry_ring) (simp add: query_keeps_def)
  have "[(if True then 0 else min 2 (OUTPUT_LOG_LEVELS - 1))..<Suc (min 2 (OUTPUT_LOG_LEVELS - 1))] =
      [0, 1, 2]"
    by (simp add: OUTPUT_LOG_LEVELS_def upt_conv_Cons)
  then show ?thesis
    by (simp only: TRI_BufferLogging_result list.map concat.simps r0 r1 r2 append.simps)
qed

lemma set_qsort_insert: "set (qsort_insert cmp x xs) = insert x (set xs)"
  by (induction xs) auto

lemma length_qsort_insert: "length (qsort_insert cmp x xs) = Suc (length xs)"
  by (induction xs) auto

lemma qsort_same_elements: "set (qsort cmp xs) = set xs \<and> length (qsort cmp xs) = length xs"
  by (induction xs) (simp_all add: qsort_def set_qsort_insert length_qsort_insert)

lemma LidCompare_near:
  assumes "- (2 ^ 31) \<le> uint (buf_lid a) - uint (buf_lid b)"
    and "uint (buf_lid a) - uint (buf_lid b) < 2 ^ 31"
  shows "LidCompare a b = uint (buf_lid a) - uint (buf_lid b)"
proof -
  have "LidCompare a b = signed_take_bit 31 (uint (buf_lid a - buf_lid b))"
    by (simp add: LidCompare_def sint_uint unsigned_ucast_eq signed_take_bit_take_bit)
  also have "uint (buf_lid a - buf_lid b) = take_bit 64 (uint (buf_lid a) - uint (buf_lid b))"
    by (simp add: uint_word_ariths take_bit_eq_mod)
  also have "signed_take_bit 31 (take_bit 64 (uint (buf_lid a) - uint (buf_lid b))) =
      signed_take_bit 31 (uint (buf_lid a) - uint (buf_lid b))"
    by (simp add: signed_take_bit_take_bit)
  also have "\<dots> = uint (buf_lid a) - uint (buf_lid b)"
    using assms by (simp add: signed_take_bit_int_eq_self)
  finally show ?thesis .
qed

lemma sorted_qsort_insert:
  assumes "\<forall>a\<in>insert x (set xs). \<forall>b\<in>insert x (set xs).
      uint (buf_lid a) - uint (buf_lid b) < 2 ^ 31"
    and "sorted_wrt (\<lambda>a b. buf_lid a \<le> buf_lid b) xs"
  shows "sorted_wrt (\<lambda>a b. buf_lid a \<le> buf_lid b) (qsort_insert LidCompare x xs)"
  using assms
proof (induction xs)
  case Nil
  then show ?case by simp
next
  case (Cons y ys)
  have near: "- (2 ^ 31) \<le> uint (buf_lid x) - uint (buf_lid y)"
      "uint (buf_lid x) - uint (buf_lid y) < 2 ^ 31"
    using Cons.prems(1) by (force, simp)
  have cmp: "LidCompare x y = uint (buf_lid x) - uint (buf_lid y)"
    using near by (rule LidCompare_near)
  show ?case
  proof (cases "LidCompare x y \<le> 0")
    case True
    then have "buf_lid x \<le> buf_lid y" using cmp by (simp add: word_le_def)
    then show ?thesis using True Cons.prems(2) by auto
  next
    case False
    then have xy: "buf_lid y \<le> buf_lid x" using cmp by (simp add: word_le_def)
    have "sorted_wrt (\<lambda>a b. buf_lid a \<le> buf_lid b) (qsort_insert LidCompare x ys)"
      using Cons.prems by (intro Cons.IH) auto
    then show ?thesis
      using False xy Cons.prems(2) by (auto simp: set_qsort_insert)
  qed
qed


lemma sorted_qsort_near:
  assumes "\<forall>a\<in>set xs. \<forall>b\<in>set xs. uint (buf_lid a) - uint (buf_lid b) < 2 ^ 31"
  shows "sorted_wrt (\<lambda>a b. buf_lid a \<le> buf_lid b) (qsort LidCompare xs)"
  using assms
proof (induction xs)
  case Nil
  then show ?case by (simp add: qsort_def)
next
  case (Cons x xs)
  have "sorted_wrt (\<lambda>a b. buf_lid a \<le> buf_lid b) (qsort LidCompare xs)"
    using Cons.prems by (intro Cons.IH) auto
  moreover have "\<forall>a\<in>insert x (set (qsort LidCompare xs)).
      \<forall>b\<in>insert x (set (qsort LidCompare xs)). uint (buf_lid a) - uint (buf_lid b) < 2 ^ 31"
    using Cons.prems by (simp add: qsort_same_elements)
  ultimately have "sorted_wrt (\<lambda>a b. buf_lid a \<le> buf_lid b)
      (qsort_insert LidCompare x (qsort LidCompare xs))"
    by (intro sorted_qsort_insert)
  then show ?case by (simp add: qsort_def)
qed

lemma TRI_BufferLogging_sorted_when_near:
  assumes "TRI_BufferLogging True copy_ok level start useUpto st = Inr result"
    and "\<forall>a\<in>set result. \<forall>b\<in>set result. uint (buf_lid a) - uint (buf_lid b) < 2 ^ 31"
  shows "sorted_wrt (\<lambda>a b. buf_lid a \<le> buf_lid b) result"
proof -
  obtain xs where r: "result = qsort LidCompare xs"
    using assms(1) unfolding TRI_BufferLogging_result by blast
  then have "set result = set xs"
    by (simp add: qsort_same_elements)
  then have "\<forall>a\<in>set xs. \<forall>b\<in>set xs. uint (buf_lid a) - uint (buf_lid b) < 2 ^ 31"
    using assms(2) by simp
  then show ?thesis
    unfolding r by (rule sorted_qsort_near)
qed

text \<open>
  C5 fails on the code. From program start, store one record at level 1 (it gets lid
  1), then \<open>2^31\<close> records at level 4, then one record at level 2 (it gets lid
  \<open>2^31 + 2\<close>). The cumulative query at level 2 from start id 0 finds the two entries of
  rings 1 and 2 and returns them with the larger lid first: \<^verbatim>\<open>LidCompare\<close> casts the
  64-bit difference of the lids to \<^verbatim>\<open>int\<close>, and \<open>1 - (2^31 + 2)\<close> becomes
  \<open>2^31 - 1\<close>, a positive number.
\<close>

theorem TRI_BufferLogging_far_lids_misordered:
  "TRI_BufferLogging True (\<lambda>_. True) 2 0 True
     (store_all ((True, 1, 0, ''a'') # replicate (2 ^ 31) (True, 4, 0, ''b'') @ [(True, 2, 0, ''c'')])
        initial_rings) =
   Inr [\<lparr>buf_lid = 2147483650, buf_level = 2, buf_timestamp = 0, buf_text = Some ''c''\<rparr>,
        \<lparr>buf_lid = 1, buf_level = 1, buf_timestamp = 0, buf_text = Some ''a''\<rparr>]"
  by (simp only: TRI_BufferLogging_far_apart) (simp add: qsort_def LidCompare_def)

section \<open>Formatting: the stack buffer, the heap buffer and the ceiling\<close>

lemma GenerateMessage_stages:
  obtains p0 p1 p2 p3 sln where
    "length p0 \<le> length p1" "length p1 \<le> length p2" "length p2 \<le> length p3"
    "message_prefix st env c = p3"
    "\<And>sz body. GenerateMessage sz st env c body =
       (if int sz \<le> int (length p0) then (int (length p0), 0, take (sz - 1) p0)
        else if int sz \<le> int (length p1) then (int (length p1), 0, take (sz - 1) p1)
        else if int sz \<le> int (length p2) then (int (length p2), 0, take (sz - 1) p2)
        else if sln \<and> int sz \<le> int (length p3) then (int (length p3), 0, take (sz - 1) p3)
        else (case body of
                None \<Rightarrow> (- 1, int (length p3), take (sz - 1) p3)
              | Some b \<Rightarrow> (int (length p3) + int (length b), int (length p3),
                           take (sz - 1) (p3 @ b))))"
proof -
  define p0 where "p0 = (case OutputPrefix st of
                  None \<Rightarrow> []
                | Some outputPrefix \<Rightarrow> if outputPrefix \<noteq> [] then outputPrefix @ '' '' else [])"
  define p1 where "p1 = p0 @ (if ShowThreadIdentifier st
                        then ''['' @ decimal (processId env) @ ''-'' @ decimal (threadNumber env) @ ''] ''
                        else ''['' @ decimal (processId env) @ ''] '')"
  define p2 where "p2 = p1 @ level_name (call_level c) @ '' ''"
  define sln where "sln = (ShowLineNumber st \<or> call_level c = TRI_LOG_LEVEL_DEBUG
                            \<or> call_level c = TRI_LOG_LEVEL_TRACE)"
  define p3 where "p3 = (if sln
                         then p2 @ ''['' @ call_file c @ '':'' @ decimal_int (call_line c) @ ''] ''
                         else p2)"
  show thesis
  proof (rule that [of p0 p1 p2 p3 sln])
    show "length p0 \<le> length p1" by (simp add: p1_def)
    show "length p1 \<le> length p2" by (simp add: p2_def)
    show "length p2 \<le> length p3" by (simp add: p3_def)
    show "message_prefix st env c = p3"
      unfolding message_prefix_def p3_def sln_def p2_def p1_def p0_def by simp
    show "GenerateMessage sz st env c body =
       (if int sz \<le> int (length p0) then (int (length p0), 0, take (sz - 1) p0)
        else if int sz \<le> int (length p1) then (int (length p1), 0, take (sz - 1) p1)
        else if int sz \<le> int (length p2) then (int (length p2), 0, take (sz - 1) p2)
        else if sln \<and> int sz \<le> int (length p3) then (int (length p3), 0, take (sz - 1) p3)
        else (case body of
                None \<Rightarrow> (- 1, int (length p3), take (sz - 1) p3)
              | Some b \<Rightarrow> (int (length p3) + int (length b), int (length p3),
                           take (sz - 1) (p3 @ b))))" for sz body
      unfolding GenerateMessage_def Let_def p3_def sln_def p2_def p1_def p0_def
      by (rule refl)
  qed
qed

lemma GenerateMessage_bounds:
  assumes "GenerateMessage sz st env c (Some b) = (m, offset, p)"
  shows "0 \<le> m \<and> m \<le> int (length (message_prefix st env c @ b)) \<and>
    (m < int sz \<longrightarrow> m = int (length (message_prefix st env c @ b)) \<and>
       offset = int (length (message_prefix st env c)) \<and> p = message_prefix st env c @ b)"
proof -
  obtain p0 p1 p2 p3 sln where
    L: "length p0 \<le> length p1" "length p1 \<le> length p2" "length p2 \<le> length p3"
    and P: "message_prefix st env c = p3"
    and G: "\<And>sz body. GenerateMessage sz st env c body =
       (if int sz \<le> int (length p0) then (int (length p0), 0, take (sz - 1) p0)
        else if int sz \<le> int (length p1) then (int (length p1), 0, take (sz - 1) p1)
        else if int sz \<le> int (length p2) then (int (length p2), 0, take (sz - 1) p2)
        else if sln \<and> int sz \<le> int (length p3) then (int (length p3), 0, take (sz - 1) p3)
        else (case body of
                None \<Rightarrow> (- 1, int (length p3), take (sz - 1) p3)
              | Some b \<Rightarrow> (int (length p3) + int (length b), int (length p3),
                           take (sz - 1) (p3 @ b))))"
    by (rule GenerateMessage_stages [of st env c]) blast
  show ?thesis
    using assms L unfolding G P
    by (auto split: if_splits)
qed

lemma message_prefix_nonempty: "2 \<le> length (message_prefix st env c)"
  by (simp add: message_prefix_def)

lemma time_prefix_short: "length (time_prefix env) < 32"
  by (simp add: time_prefix_def)

lemma LogThread_loop_grows:
  assumes "\<forall>k. render env k = Some b" "\<forall>s. alloc_ok env s"
    and "int (length (message_prefix st env c @ b)) < maxSize"
    and "n \<le> int (length (message_prefix st env c @ b))" "0 \<le> n"
  shows "LogThread_loop st env c k n =
     Output (call_level c) (call_severity c) (time_prefix env @ message_prefix st env c @ b)
       (length (time_prefix env @ message_prefix st env c @ b))
       (length (time_prefix env @ message_prefix st env c)) True"
  using assms(4,5)
proof (induction "nat (int (length (message_prefix st env c @ b)) - n)" arbitrary: n k
    rule: less_induct)
  case less
  let ?full = "message_prefix st env c @ b"
  obtain m offset p where g: "GenerateMessage (nat (n + 1)) st env c (Some b) = (m, offset, p)"
    by (cases "GenerateMessage (nat (n + 1)) st env c (Some b)") auto
  note bnd = GenerateMessage_bounds [OF g]
  have n: "n < maxSize" using less.prems assms(3) by simp
  have m1: "m \<noteq> - 1" using bnd by simp
  show ?case
  proof (cases "m > n")
    case True
    have "LogThread_loop st env c k n = LogThread_loop st env c (Suc k) m"
      using n True g m1 assms(1,2)
      by (subst LogThread_loop.simps) (simp add: Let_def)
    moreover have "LogThread_loop st env c (Suc k) m =
        Output (call_level c) (call_severity c) (time_prefix env @ ?full)
          (length (time_prefix env @ ?full))
          (length (time_prefix env @ message_prefix st env c)) True"
    proof (rule less.hyps)
      show "nat (int (length ?full) - m) < nat (int (length ?full) - n)"
        using True bnd less.prems by simp
      show "m \<le> int (length ?full)" using bnd by simp
      show "0 \<le> m" using bnd by simp
    qed
    ultimately show ?thesis by simp
  next
    case False
    then have "m < int (nat (n + 1))" using less.prems by simp
    then have full: "m = int (length ?full)" "offset = int (length (message_prefix st env c))"
        "p = ?full"
      using bnd by simp_all
    have "0 < m + int (length (time_prefix env)) - 1"
      using full(1) message_prefix_nonempty [of st env c] by simp
    moreover have "m + int (length (time_prefix env)) - 1 < 2 ^ 64"
      using full(1) assms(3) time_prefix_short [of env] by (simp add: maxSize_def)
    ultimately have pos: "(m + int (length (time_prefix env)) - 1) mod 2 ^ 64 > 0"
      by simp
    have l1: "nat (m + int (length (time_prefix env))) = length (time_prefix env @ ?full)"
      using full(1) by simp
    have l2: "nat (offset + int (length (time_prefix env))) =
        length (time_prefix env @ message_prefix st env c)"
      using full(2) by simp
    show ?thesis
      using n False g m1 full(3) pos assms(1,2)
      by (subst LogThread_loop.simps) (simp add: Let_def l1 l2)
  qed
qed

lemma LogThread_loop_ceiling: "maxSize \<le> n \<Longrightarrow> LogThread_loop st env c k n = Nothing"
  by (subst LogThread_loop.simps) simp

lemma LogThread_loop_alloc_fails:
  "n < maxSize \<Longrightarrow> \<not> alloc_ok env (nat (n + int (length (time_prefix env)) + 2)) \<Longrightarrow>
   LogThread_loop st env c k n =
     Relog TRI_LOG_LEVEL_ERROR TRI_LOG_SEVERITY_HUMAN
       (''log message is too large ('' @ decimal_int (n + int (length (time_prefix env))) @ '' bytes)'')"
  by (subst LogThread_loop.simps) (simp add: Let_def)


lemma LogThread_loop_over_ceiling:
  assumes "\<forall>k. render env k = Some b" "\<forall>s. alloc_ok env s"
    and "maxSize \<le> int (length (message_prefix st env c @ b))"
    and "n \<le> int (length (message_prefix st env c @ b))" "0 \<le> n"
  shows "LogThread_loop st env c k n = Nothing"
  using assms(4,5)
proof (induction "nat (int (length (message_prefix st env c @ b)) - n)" arbitrary: n k
    rule: less_induct)
  case less
  let ?full = "message_prefix st env c @ b"
  show ?case
  proof (cases "n < maxSize")
    case False
    then show ?thesis by (simp add: LogThread_loop_ceiling)
  next
    case n: True
    obtain m offset p where g: "GenerateMessage (nat (n + 1)) st env c (Some b) = (m, offset, p)"
      by (cases "GenerateMessage (nat (n + 1)) st env c (Some b)") auto
    note bnd = GenerateMessage_bounds [OF g]
    have m1: "m \<noteq> - 1" using bnd by simp
    have "\<not> m < int (nat (n + 1))"
      using bnd n assms(3) less.prems by auto
    then have gt: "m > n" using less.prems by simp
    have "LogThread_loop st env c k n = LogThread_loop st env c (Suc k) m"
      using n gt g m1 assms(1,2)
      by (subst LogThread_loop.simps) (simp add: Let_def)
    moreover have "LogThread_loop st env c (Suc k) m = Nothing"
    proof (rule less.hyps)
      show "nat (int (length ?full) - m) < nat (int (length ?full) - n)"
        using gt bnd less.prems by simp
      show "m \<le> int (length ?full)" using bnd by simp
      show "0 \<le> m" using bnd by simp
    qed
    ultimately show ?thesis by simp
  qed
qed

lemma LogThread_deterministic:
  assumes "\<forall>k. render env k = Some b" "\<forall>s. alloc_ok env s"
  shows "LogThread st env c =
     (if int (length (message_prefix st env c @ b)) < int (2048 - length (time_prefix env))
      then Output (call_level c) (call_severity c) (time_prefix env @ message_prefix st env c @ b)
             (length (time_prefix env @ message_prefix st env c @ b))
             (length (time_prefix env @ message_prefix st env c)) False
      else if int (length (message_prefix st env c @ b)) < maxSize
      then Output (call_level c) (call_severity c) (time_prefix env @ message_prefix st env c @ b)
             (length (time_prefix env @ message_prefix st env c @ b))
             (length (time_prefix env @ message_prefix st env c)) True
      else Nothing)"
proof -
  let ?full = "message_prefix st env c @ b"
  let ?sz = "2048 - length (time_prefix env)"
  obtain n offset p where g: "GenerateMessage ?sz st env c (Some b) = (n, offset, p)"
    by (cases "GenerateMessage ?sz st env c (Some b)") auto
  note bnd = GenerateMessage_bounds [OF g]
  have n1: "n \<noteq> - 1" using bnd by simp
  have r0: "render env 0 = Some b" using assms(1) by simp
  show ?thesis
  proof (cases "n < int ?sz")
    case True
    then have full: "n = int (length ?full)" "offset = int (length (message_prefix st env c))"
        "p = ?full"
      using bnd by simp_all
    have l1: "nat (n + int (length (time_prefix env))) = length (time_prefix env @ ?full)"
      using full(1) by simp
    have l2: "nat (offset + int (length (time_prefix env))) =
        length (time_prefix env @ message_prefix st env c)"
      using full(2) by simp
    have "LogThread st env c =
        Output (call_level c) (call_severity c) (time_prefix env @ ?full)
          (length (time_prefix env @ ?full))
          (length (time_prefix env @ message_prefix st env c)) False"
      using True n1 g full(3) by (simp add: LogThread_def Let_def r0 l1 l2)
    moreover have "int (length ?full) < int ?sz" using True full(1) by simp
    ultimately show ?thesis by simp
  next
    case False
    have loop: "LogThread st env c = LogThread_loop st env c 1 n"
      using False n1 g by (simp add: LogThread_def Let_def r0)
    have big: "\<not> int (length ?full) < int ?sz" using False bnd by linarith
    show ?thesis
    proof (cases "int (length ?full) < maxSize")
      case True
      have "LogThread_loop st env c 1 n =
          Output (call_level c) (call_severity c) (time_prefix env @ ?full)
            (length (time_prefix env @ ?full))
            (length (time_prefix env @ message_prefix st env c)) True"
        using assms True bnd by (intro LogThread_loop_grows) simp_all
      then show ?thesis using loop big True by simp
    next
      case over: False
      have "LogThread_loop st env c 1 n = Nothing"
        using assms over bnd by (intro LogThread_loop_over_ceiling) auto
      then show ?thesis using loop big over by simp
    qed
  qed
qed

lemma LogThread_alloc_fails:
  assumes "GenerateMessage (2048 - length (time_prefix env)) st env c (render env 0) = (n, offset, p)"
    and "int (2048 - length (time_prefix env)) \<le> n" "n < maxSize"
    and "\<not> alloc_ok env (nat (n + int (length (time_prefix env)) + 2))"
  shows "LogThread st env c =
     Relog TRI_LOG_LEVEL_ERROR TRI_LOG_SEVERITY_HUMAN
       (''log message is too large ('' @ decimal_int (n + int (length (time_prefix env))) @ '' bytes)'')"
proof -
  have "n \<noteq> - 1" using assms(2) by simp
  then have "LogThread st env c = LogThread_loop st env c 1 n"
    using assms(1,2) by (simp add: LogThread_def Let_def)
  then show ?thesis
    using assms(3,4) by (simp add: LogThread_loop_alloc_fails)
qed

text \<open>
  C6, as the claim states it, fails: with logging active and every allocation
  succeeding, a record whose body has 200000 bytes makes \<^verbatim>\<open>LogThread\<close> return without
  calling \<^verbatim>\<open>OutputMessage\<close> and without logging any diagnostic; the log call leaves
  the whole state, stderr included, as it was.
\<close>

theorem LogThread_oversize_dropped_silently:
  "LogThread (startup_state\<lparr>LoggingActive := True\<rparr>) (plain_env (replicate 200000 CHR ''x''))
     \<lparr>call_func = ''f'', call_file = ''a.cpp'', call_line = 1, call_level = TRI_LOG_LEVEL_INFO,
      call_severity = TRI_LOG_SEVERITY_HUMAN, call_fmt = ''%s''\<rparr> = Nothing \<and>
   TRI_Log 1 (plain_env (replicate 200000 CHR ''x''))
     \<lparr>call_func = ''f'', call_file = ''a.cpp'', call_line = 1, call_level = TRI_LOG_LEVEL_INFO,
      call_severity = TRI_LOG_SEVERITY_HUMAN, call_fmt = ''%s''\<rparr>
     (startup_state\<lparr>LoggingActive := True\<rparr>) = Some (startup_state\<lparr>LoggingActive := True\<rparr>)"
proof -
  have "LogThread (startup_state\<lparr>LoggingActive := True\<rparr>) (plain_env (replicate 200000 CHR ''x''))
     \<lparr>call_func = ''f'', call_file = ''a.cpp'', call_line = 1, call_level = TRI_LOG_LEVEL_INFO,
      call_severity = TRI_LOG_SEVERITY_HUMAN, call_fmt = ''%s''\<rparr> = Nothing"
    by (subst LogThread_deterministic [where b = "replicate 200000 CHR ''x''"])
      (simp_all add: plain_env_def maxSize_def time_prefix_def)
  then show ?thesis by (simp add: startup_state_def)
qed

text \<open>
  C6, amended. When the rendering is the same at every attempt and allocations succeed:
  a message that fits the 2048-byte stack buffer (less the time prefix) is emitted from
  it; a larger one whose required size is below the ceiling of 100 KB (102400) is
  emitted complete from a heap buffer; and for every input whose required size is at
  or above the ceiling the record is dropped, with no output and no diagnostic. The
  diagnostic "log message is too large" is logged in place of the record when the
  allocation of the heap buffer fails.
\<close>

theorem LogThread_growth_and_ceiling:
  "((\<forall>k. render env k = Some b) \<and> (\<forall>s. alloc_ok env s) \<longrightarrow>
      LogThread st env c =
        (if int (length (message_prefix st env c @ b)) < int (2048 - length (time_prefix env))
         then Output (call_level c) (call_severity c)
                (time_prefix env @ message_prefix st env c @ b)
                (length (time_prefix env @ message_prefix st env c @ b))
                (length (time_prefix env @ message_prefix st env c)) False
         else if int (length (message_prefix st env c @ b)) < maxSize
         then Output (call_level c) (call_severity c)
                (time_prefix env @ message_prefix st env c @ b)
                (length (time_prefix env @ message_prefix st env c @ b))
                (length (time_prefix env @ message_prefix st env c)) True
         else Nothing)) \<and>
   (GenerateMessage (2048 - length (time_prefix env)) st env c (render env 0) = (n, offset, p) \<and>
    int (2048 - length (time_prefix env)) \<le> n \<and> n < maxSize \<and>
    \<not> alloc_ok env (nat (n + int (length (time_prefix env)) + 2)) \<longrightarrow>
      LogThread st env c =
        Relog TRI_LOG_LEVEL_ERROR TRI_LOG_SEVERITY_HUMAN
          (''log message is too large ('' @ decimal_int (n + int (length (time_prefix env)))
             @ '' bytes)''))"
proof (intro conjI impI)
  assume "(\<forall>k. render env k = Some b) \<and> (\<forall>s. alloc_ok env s)"
  then show "LogThread st env c =
        (if int (length (message_prefix st env c @ b)) < int (2048 - length (time_prefix env))
         then Output (call_level c) (call_severity c)
                (time_prefix env @ message_prefix st env c @ b)
                (length (time_prefix env @ message_prefix st env c @ b))
                (length (time_prefix env @ message_prefix st env c)) False
         else if int (length (message_prefix st env c @ b)) < maxSize
         then Output (call_level c) (call_severity c)
                (time_prefix env @ message_prefix st env c @ b)
                (length (time_prefix env @ message_prefix st env c @ b))
                (length (time_prefix env @ message_prefix st env c)) True
         else Nothing)"
    using LogThread_deterministic [of env b st c] by blast
next
  assume "GenerateMessage (2048 - length (time_prefix env)) st env c (render env 0) = (n, offset, p) \<and>
    int (2048 - length (time_prefix env)) \<le> n \<and> n < maxSize \<and>
    \<not> alloc_ok env (nat (n + int (length (time_prefix env)) + 2))"
  then show "LogThread st env c =
        Relog TRI_LOG_LEVEL_ERROR TRI_LOG_SEVERITY_HUMAN
          (''log message is too large ('' @ decimal_int (n + int (length (time_prefix env)))
             @ '' bytes)'')"
    using LogThread_alloc_fails [of env st c n offset p] by blast
qed

theorem LogThread_growth_and_ceiling_witness:
  "(\<forall>k. render (plain_env (replicate 3000 CHR ''x'')) k = Some (replicate 3000 CHR ''x'')) \<and>
   (\<forall>s. alloc_ok (plain_env (replicate 3000 CHR ''x'')) s) \<and>
   LogThread (startup_state\<lparr>LoggingActive := True\<rparr>) (plain_env (replicate 3000 CHR ''x''))
     \<lparr>call_func = ''f'', call_file = ''a.cpp'', call_line = 1, call_level = TRI_LOG_LEVEL_INFO,
      call_severity = TRI_LOG_SEVERITY_HUMAN, call_fmt = ''%s''\<rparr> =
   Output TRI_LOG_LEVEL_INFO TRI_LOG_SEVERITY_HUMAN
     (''2016-01-01T00:00:00Z [7] INFO '' @ replicate 3000 CHR ''x'') 3030 30 True"
proof -
  have h: "(\<forall>k. render (plain_env (replicate 3000 CHR ''x'')) k = Some (replicate 3000 CHR ''x'')) \<and>
      (\<forall>s. alloc_ok (plain_env (replicate 3000 CHR ''x'')) s)"
    by (simp add: plain_env_def)
  have v: "time_prefix (plain_env (replicate 3000 CHR ''x'')) = ''2016-01-01T00:00:00Z ''"
    by (simp add: plain_env_def time_prefix_def)
  have m: "message_prefix (startup_state\<lparr>LoggingActive := True\<rparr>)
      (plain_env (replicate 3000 CHR ''x''))
      \<lparr>call_func = ''f'', call_file = ''a.cpp'', call_line = 1, call_level = TRI_LOG_LEVEL_INFO,
      call_severity = TRI_LOG_SEVERITY_HUMAN, call_fmt = ''%s''\<rparr> = ''[7] INFO ''"
    by (simp add: plain_env_def message_prefix_def startup_state_def
      level_name_def TRI_LOG_LEVEL_INFO_def TRI_LOG_LEVEL_FATAL_def TRI_LOG_LEVEL_ERROR_def
      TRI_LOG_LEVEL_WARNING_def TRI_LOG_LEVEL_DEBUG_def TRI_LOG_LEVEL_TRACE_def decimal.simps)
  show ?thesis
    using h LogThread_growth_and_ceiling [of "plain_env (replicate 3000 CHR ''x'')"
        "replicate 3000 CHR ''x''" "startup_state\<lparr>LoggingActive := True\<rparr>"
        "\<lparr>call_func = ''f'', call_file = ''a.cpp'', call_line = 1, call_level = TRI_LOG_LEVEL_INFO,
      call_severity = TRI_LOG_SEVERITY_HUMAN, call_fmt = ''%s''\<rparr>"]
    by (simp add: v m maxSize_def)
qed

section \<open>Log calls while logging is inactive\<close>

text \<open>
  C1, as the claim states it, fails: before initialization logging is inactive, and a
  log call made then returns at the test of the active flag in \<^verbatim>\<open>TRI_Log\<close>; nothing is
  written to stderr.
\<close>

theorem TRI_Log_inactive_writes_nothing:
  "\<not> LoggingActive startup_state \<and>
   map_option stderr_written
     (TRI_Log 1 (plain_env ''hello'')
        \<lparr>call_func = ''f'', call_file = ''a.cpp'', call_line = 1, call_level = TRI_LOG_LEVEL_INFO,
      call_severity = TRI_LOG_SEVERITY_HUMAN, call_fmt = ''%s''\<rparr>
        startup_state) = Some []"
  by (simp add: startup_state_def)

text \<open>
  C1, amended. Whenever logging is globally inactive, a record that reaches
  \<^verbatim>\<open>OutputMessage\<close> is written to stderr (in the colour of its level) and nothing else
  changes; a log call through \<^verbatim>\<open>TRI_Log\<close> made while the active flag is false returns
  before formatting, leaves everything unchanged and writes nothing.
\<close>

theorem inactive_logging_paths:
  "\<not> LoggingActive st \<longrightarrow>
     TRI_Log (Suc depth) env c st = Some st \<and>
     OutputMessage env level severity message len offset claimOwnership st =
       st\<lparr>stderr_written := stderr_written st @ [WriteStderr level message]\<rparr>"
  by (simp add: OutputMessage_def)

theorem inactive_logging_paths_witness:
  "\<not> LoggingActive startup_state \<and>
   TRI_Log (Suc 0) (plain_env ''hello'')
     \<lparr>call_func = ''f'', call_file = ''a.cpp'', call_line = 1, call_level = TRI_LOG_LEVEL_INFO,
      call_severity = TRI_LOG_SEVERITY_HUMAN, call_fmt = ''%s''\<rparr>
     startup_state = Some startup_state \<and>
   stderr_written (OutputMessage (plain_env ''hello'') TRI_LOG_LEVEL_ERROR TRI_LOG_SEVERITY_HUMAN
     ''hello'' 5 0 False startup_state) = [(RED, ''hello'')]"
proof -
  have h: "\<not> LoggingActive startup_state"
    by (simp add: startup_state_def)
  have "stderr_written (startup_state\<lparr>stderr_written := stderr_written startup_state @
      [WriteStderr TRI_LOG_LEVEL_ERROR ''hello'']\<rparr>) = [(RED, ''hello'')]"
    by (simp add: startup_state_def WriteStderr_def)
  then show ?thesis
    using h inactive_logging_paths [of startup_state 0 "plain_env ''hello''"
        "\<lparr>call_func = ''f'', call_file = ''a.cpp'', call_line = 1, call_level = TRI_LOG_LEVEL_INFO,
      call_severity = TRI_LOG_SEVERITY_HUMAN, call_fmt = ''%s''\<rparr>"
        TRI_LOG_LEVEL_ERROR TRI_LOG_SEVERITY_HUMAN "''hello''" 5 0 False]
    by simp
qed

section \<open>The ring of one level\<close>

lemma stored_text_None_iff: "stored_text ok tx = None \<longleftrightarrow> \<not> ok"
  by (simp add: stored_text_def)

lemma insert_log_at_level:
  assumes "pos < OUTPUT_LOG_LEVELS"
  shows "map (\<lambda>e. (buf_timestamp e, buf_text e))
       (filter (\<lambda>e. buf_level e = pos) (insert_log calls l)) =
     map (\<lambda>(ok, level, timestamp, tx). (timestamp, stored_text ok tx))
       (filter (\<lambda>(ok, level, timestamp, tx). ok \<and> level = pos) calls)"
proof (induction calls arbitrary: l)
  case Nil
  then show ?case by simp
next
  case (Cons c calls)
  obtain ok level timestamp tx where c: "c = (ok, level, timestamp, tx)"
    by (cases c) auto
  show ?case
  proof (cases "level < OUTPUT_LOG_LEVELS \<and> stored_text ok tx \<noteq> None")
    case False
    have log: "insert_log (c # calls) l = insert_log calls l"
      unfolding c using False by (rule insert_log_skip)
    have "\<not> (ok \<and> level = pos)"
      using False assms by (auto simp: stored_text_None_iff)
    then show ?thesis
      using Cons.IH [of l] by (simp only: log) (simp add: c)
  next
    case True
    then obtain msg where msg: "stored_text ok tx = Some msg" and lv: "level < OUTPUT_LOG_LEVELS"
      by auto
    have ok: ok using msg stored_text_None_iff [of ok tx] by auto
    have log: "insert_log (c # calls) l =
        \<lparr>buf_lid = l, buf_level = level, buf_timestamp = timestamp, buf_text = Some msg\<rparr> #
          insert_log calls (l + 1)"
      unfolding c using lv msg by (rule insert_log_hit)
    show ?thesis
      using Cons.IH [of "l + 1"] ok msg by (simp only: log) (simp add: c)
  qed
qed

lemma StoreOutput_no_ring:
  "OUTPUT_LOG_LEVELS \<le> level \<Longrightarrow> StoreOutput ok level timestamp tx st = st"
  by (rule ring_oldest_first_no_insert) simp

lemma store_all_no_ring:
  "OUTPUT_LOG_LEVELS \<le> level \<Longrightarrow> store_all (replicate n (ok, level, timestamp, tx)) st = st"
  by (induction n) (simp_all add: store_all_def StoreOutput_no_ring)

lemma ring_keeps_most_recent_calls:
  assumes "pos < OUTPUT_LOG_LEVELS"
    and "length calls < 2 ^ 64 - 1"
    and "OUTPUT_BUFFER_SIZE <
      length (filter (\<lambda>(ok, level, timestamp, tx). ok \<and> level = pos) calls)"
  shows "map (\<lambda>e. (buf_timestamp e, buf_text e))
       (ring_oldest_first (store_all calls initial_rings) pos) =
     map (\<lambda>(ok, level, timestamp, tx). (timestamp, stored_text ok tx))
       (drop (length (filter (\<lambda>(ok, level, timestamp, tx). ok \<and> level = pos) calls)
               - OUTPUT_BUFFER_SIZE)
          (filter (\<lambda>(ok, level, timestamp, tx). ok \<and> level = pos) calls))"
    and "\<forall>e\<in>set (ring_oldest_first (store_all calls initial_rings) pos). buf_level e = pos"
    and "length (ring_oldest_first (store_all calls initial_rings) pos) = OUTPUT_BUFFER_SIZE"
    and "sorted_wrt (<) (map buf_lid (insert_log calls 1))"
    and "sorted_wrt (<) (map buf_lid (ring_oldest_first (store_all calls initial_rings) pos))"
    and "ring_oldest_first (store_all calls initial_rings) pos =
      drop (length (filter (\<lambda>e. buf_level e = pos) (insert_log calls 1)) - OUTPUT_BUFFER_SIZE)
        (filter (\<lambda>e. buf_level e = pos) (insert_log calls 1))"
proof -
  let ?E = "filter (\<lambda>e. buf_level e = pos) (insert_log calls 1)"
  let ?F = "filter (\<lambda>(ok, level, timestamp, tx). ok \<and> level = pos) calls"
  have EF: "map (\<lambda>e. (buf_timestamp e, buf_text e)) ?E =
      map (\<lambda>(ok, level, timestamp, tx). (timestamp, stored_text ok tx)) ?F"
    using assms(1) by (rule insert_log_at_level)
  then have "length (map (\<lambda>e. (buf_timestamp e, buf_text e)) ?E) =
      length (map (\<lambda>(ok, level, timestamp, tx). (timestamp, stored_text ok tx)) ?F)"
    by (rule arg_cong)
  then have len: "length ?E = length ?F" by (simp only: length_map)
  then have h2: "OUTPUT_BUFFER_SIZE < length ?E" using assms(3) by simp
  note r = ring_window_after_inserts [OF assms(2) h2]
  show view: "ring_oldest_first (store_all calls initial_rings) pos =
      drop (length ?E - OUTPUT_BUFFER_SIZE) ?E"
    using r by blast
  show "length (ring_oldest_first (store_all calls initial_rings) pos) = OUTPUT_BUFFER_SIZE"
    using r by blast
  show "sorted_wrt (<) (map buf_lid (insert_log calls 1))"
    using r by blast
  show "sorted_wrt (<) (map buf_lid (ring_oldest_first (store_all calls initial_rings) pos))"
    using r by blast
  have "map (\<lambda>e. (buf_timestamp e, buf_text e)) (drop (length ?E - OUTPUT_BUFFER_SIZE) ?E) =
      drop (length ?F - OUTPUT_BUFFER_SIZE)
        (map (\<lambda>(ok, level, timestamp, tx). (timestamp, stored_text ok tx)) ?F)"
    by (simp only: drop_map [symmetric] EF len)
  then show "map (\<lambda>e. (buf_timestamp e, buf_text e))
       (ring_oldest_first (store_all calls initial_rings) pos) =
     map (\<lambda>(ok, level, timestamp, tx). (timestamp, stored_text ok tx))
       (drop (length ?F - OUTPUT_BUFFER_SIZE) ?F)"
    by (simp only: view drop_map)
  have "set (drop (length ?E - OUTPUT_BUFFER_SIZE) ?E) \<subseteq> set ?E"
    by (rule set_drop_subset)
  then show "\<forall>e\<in>set (ring_oldest_first (store_all calls initial_rings) pos). buf_level e = pos"
    unfolding view by auto
qed

text \<open>
  C4, as the claim states it, fails for the level TRACE (6): it has no ring. From program
  start, 1025 records stored at level TRACE leave the whole state as it was: no lid is
  assigned (\<^verbatim>\<open>BufferLID\<close> is still 1) and the last ring (position 5) still holds only
  empty slots.
\<close>

theorem TRACE_records_not_stored:
  "store_all (replicate 1025 (True, TRI_LOG_LEVEL_TRACE, 0, ''x'')) initial_rings = initial_rings \<and>
   BufferLID (store_all (replicate 1025 (True, TRI_LOG_LEVEL_TRACE, 0, ''x'')) initial_rings) = 1 \<and>
   set (ring_oldest_first
      (store_all (replicate 1025 (True, TRI_LOG_LEVEL_TRACE, 0, ''x'')) initial_rings) 5) =
     {empty_slot}"
proof -
  have s: "store_all (replicate 1025 (True, TRI_LOG_LEVEL_TRACE, 0, ''x'')) initial_rings =
      initial_rings"
    by (rule store_all_no_ring) (simp add: OUTPUT_LOG_LEVELS_def TRI_LOG_LEVEL_TRACE_def)
  have "set (ring_oldest_first initial_rings 5) = {empty_slot}"
    using OUTPUT_BUFFER_SIZE_pos by (simp add: ring_oldest_first_initial)
  then show ?thesis
    by (simp add: s) (simp add: initial_rings_def)
qed

text \<open>
  C4, amended. For the ring at each position below \<^verbatim>\<open>OUTPUT_LOG_LEVELS\<close> (positions 0
  to 5; the levels FATAL = 1 to DEBUG = 5 have the positions 1 to 5): take any run of
  \<^verbatim>\<open>StoreOutput\<close> calls from program start (fewer than \<open>2^64 - 1\<close> of them, so that
  the 64-bit lid counter does not wrap) in which more than \<^verbatim>\<open>OUTPUT_BUFFER_SIZE\<close> =
  1024 calls at that level have their allocation succeed. Then the ring holds exactly
  1024 entries, all of that level, namely the timestamps and stored texts of the 1024
  most recent of those calls, oldest slot first in insertion order; the lids were
  assigned in strictly increasing order of insertion, so the ring's lids strictly
  increase from its oldest to its newest slot. A record at level TRACE (6) or above is
  not stored: \<^verbatim>\<open>StoreOutput\<close> returns without changing any ring or assigning a lid.
\<close>

theorem ring_keeps_most_recent:
  assumes "pos < OUTPUT_LOG_LEVELS"
    and "length calls < 2 ^ 64 - 1"
    and "OUTPUT_BUFFER_SIZE <
      length (filter (\<lambda>(ok, level, timestamp, tx). ok \<and> level = pos) calls)"
  shows "map (\<lambda>e. (buf_timestamp e, buf_text e))
       (ring_oldest_first (store_all calls initial_rings) pos) =
     map (\<lambda>(ok, level, timestamp, tx). (timestamp, stored_text ok tx))
       (drop (length (filter (\<lambda>(ok, level, timestamp, tx). ok \<and> level = pos) calls)
               - OUTPUT_BUFFER_SIZE)
          (filter (\<lambda>(ok, level, timestamp, tx). ok \<and> level = pos) calls)) \<and>
    (\<forall>e\<in>set (ring_oldest_first (store_all calls initial_rings) pos). buf_level e = pos) \<and>
    length (ring_oldest_first (store_all calls initial_rings) pos) = OUTPUT_BUFFER_SIZE \<and>
    sorted_wrt (<) (map buf_lid (insert_log calls 1)) \<and>
    sorted_wrt (<) (map buf_lid (ring_oldest_first (store_all calls initial_rings) pos)) \<and>
    ring_oldest_first (store_all calls initial_rings) pos =
      drop (length (filter (\<lambda>e. buf_level e = pos) (insert_log calls 1)) - OUTPUT_BUFFER_SIZE)
        (filter (\<lambda>e. buf_level e = pos) (insert_log calls 1)) \<and>
    (OUTPUT_LOG_LEVELS \<le> level \<longrightarrow> StoreOutput ok level timestamp tx st = st)"
proof (intro conjI)
  show "map (\<lambda>e. (buf_timestamp e, buf_text e))
       (ring_oldest_first (store_all calls initial_rings) pos) =
     map (\<lambda>(ok, level, timestamp, tx). (timestamp, stored_text ok tx))
       (drop (length (filter (\<lambda>(ok, level, timestamp, tx). ok \<and> level = pos) calls)
               - OUTPUT_BUFFER_SIZE)
          (filter (\<lambda>(ok, level, timestamp, tx). ok \<and> level = pos) calls))"
    by (rule ring_keeps_most_recent_calls(1) [OF assms])
  show "\<forall>e\<in>set (ring_oldest_first (store_all calls initial_rings) pos). buf_level e = pos"
    by (rule ring_keeps_most_recent_calls(2) [OF assms])
  show "length (ring_oldest_first (store_all calls initial_rings) pos) = OUTPUT_BUFFER_SIZE"
    by (rule ring_keeps_most_recent_calls(3) [OF assms])
  show "sorted_wrt (<) (map buf_lid (insert_log calls 1))"
    by (rule ring_keeps_most_recent_calls(4) [OF assms])
  show "sorted_wrt (<) (map buf_lid (ring_oldest_first (store_all calls initial_rings) pos))"
    by (rule ring_keeps_most_recent_calls(5) [OF assms])
  show "ring_oldest_first (store_all calls initial_rings) pos =
      drop (length (filter (\<lambda>e. buf_level e = pos) (insert_log calls 1)) - OUTPUT_BUFFER_SIZE)
        (filter (\<lambda>e. buf_level e = pos) (insert_log calls 1))"
    by (rule ring_keeps_most_recent_calls(6) [OF assms])
  show "OUTPUT_LOG_LEVELS \<le> level \<longrightarrow> StoreOutput ok level timestamp tx st = st"
    by (simp add: StoreOutput_no_ring)
qed



theorem ring_keeps_most_recent_witness:
  "(4 :: nat) < OUTPUT_LOG_LEVELS \<and>
   length (replicate 1025 (True, 4 :: nat, 0 :: int, ''x'')) < 2 ^ 64 - 1 \<and>
   OUTPUT_BUFFER_SIZE <
     length (filter (\<lambda>(ok, level, timestamp, tx). ok \<and> level = 4)
       (replicate 1025 (True, 4 :: nat, 0 :: int, ''x''))) \<and>
   length (ring_oldest_first (store_all (replicate 1025 (True, 4, 0, ''x'')) initial_rings) 4) =
     1024 \<and>
   map (\<lambda>e. (buf_timestamp e, buf_text e))
     (ring_oldest_first (store_all (replicate 1025 (True, 4, 0, ''x'')) initial_rings) 4) =
     replicate 1024 (0, Some ''x'') \<and>
   sorted_wrt (<) (map buf_lid
     (ring_oldest_first (store_all (replicate 1025 (True, 4, 0, ''x'')) initial_rings) 4))"
proof -
  have h1: "(4 :: nat) < OUTPUT_LOG_LEVELS"
    by (simp add: OUTPUT_LOG_LEVELS_def)
  have h2: "length (replicate 1025 (True, 4 :: nat, 0 :: int, ''x'')) < 2 ^ 64 - 1"
    by simp
  have f: "filter (\<lambda>(ok, level, timestamp, tx). ok \<and> level = 4)
      (replicate 1025 (True, 4 :: nat, 0 :: int, ''x'')) = replicate 1025 (True, 4, 0, ''x'')"
    by simp
  have h3: "OUTPUT_BUFFER_SIZE <
     length (filter (\<lambda>(ok, level, timestamp, tx). ok \<and> level = 4)
       (replicate 1025 (True, 4 :: nat, 0 :: int, ''x'')))"
    by (simp only: f) (simp add: OUTPUT_BUFFER_SIZE_def)
  note r = ring_keeps_most_recent [OF h1 h2 h3]
  have a: "length (ring_oldest_first
      (store_all (replicate 1025 (True, 4, 0, ''x'')) initial_rings) 4) = 1024"
    using r [THEN conjunct2, THEN conjunct2, THEN conjunct1]
    by (simp only: OUTPUT_BUFFER_SIZE_def)
  have "map (\<lambda>(ok, level, timestamp, tx). (timestamp, stored_text ok tx))
      (drop (length (replicate 1025 (True, 4 :: nat, 0 :: int, ''x'')) - OUTPUT_BUFFER_SIZE)
        (replicate 1025 (True, 4 :: nat, 0 :: int, ''x''))) = replicate 1024 (0, Some ''x'')"
    by (simp add: OUTPUT_BUFFER_SIZE_def stored_text_def OUTPUT_MAX_LENGTH_def)
  then have b: "map (\<lambda>e. (buf_timestamp e, buf_text e))
      (ring_oldest_first (store_all (replicate 1025 (True, 4, 0, ''x'')) initial_rings) 4) =
      replicate 1024 (0, Some ''x'')"
    using r [THEN conjunct1] by (simp only: f)
  have c: "sorted_wrt (<) (map buf_lid
      (ring_oldest_first (store_all (replicate 1025 (True, 4, 0, ''x'')) initial_rings) 4))"
    by (rule r [THEN conjunct2, THEN conjunct2, THEN conjunct2, THEN conjunct2, THEN conjunct1])
  show ?thesis
    by (intro conjI h1 h2 h3 a b c)
qed

end
